theory Spec2Isabelle
  imports Complex_Main "HOL-Library.Sublist"
begin

section \<open>Strings\<close>

text \<open>
  A JavaScript string is modelled as a \<^typ>\<open>string\<close>: one \<^typ>\<open>char\<close> per code unit, restricted
  to the code units below 256.  \<open>s.includes(p)\<close> is \<open>str_includes s p\<close>,
  \<open>s.startsWith(p)\<close> is \<open>startsWith s p\<close>.
\<close>

fun str_includes :: "string \<Rightarrow> string \<Rightarrow> bool" where
  "str_includes [] pat = (pat = [])"
| "str_includes (c # cs) pat = (prefix pat (c # cs) \<or> str_includes cs pat)"

definition startsWith :: "string \<Rightarrow> string \<Rightarrow> bool" where
  "startsWith s p = prefix p s"

text \<open>
  \<open>toLowerCase\<close> on the code units below 256: the ASCII capitals and the Latin-1 capitals
  (0xC0 to 0xDE, without the multiplication sign 0xD7) move up by 32.
\<close>

definition lower_char :: "char \<Rightarrow> char" where
  "lower_char c =
     (let n = (of_char c :: nat)
      in if (65 \<le> n \<and> n \<le> 90) \<or> (192 \<le> n \<and> n \<le> 222 \<and> n \<noteq> 215)
         then char_of (n + 32) else c)"

definition toLowerCase :: "string \<Rightarrow> string" where
  "toLowerCase s = map lower_char s"

text \<open>
  \<open>trim\<close> removes white space and line terminators from both ends; below 256 these are
  the code units 9 to 13, 32 and 160.
\<close>

definition is_space :: "char \<Rightarrow> bool" where
  "is_space c = ((of_char c :: nat) \<in> {9, 10, 11, 12, 13, 32, 160})"

definition str_trim :: "string \<Rightarrow> string" where
  "str_trim s = rev (dropWhile is_space (rev (dropWhile is_space s)))"

text \<open>
  \<open>text.split(/\r?\n/)\<close>: a line ends at a line feed, and a carriage return right before
  that line feed belongs to the separator.  The first argument is the line being collected.
\<close>

fun split_lines_acc :: "string \<Rightarrow> string \<Rightarrow> string list" where
  "split_lines_acc cur [] = [cur]"
| "split_lines_acc cur [c] =
     (if c = CHR 0x0A then [cur, []] else [cur @ [c]])"
| "split_lines_acc cur (c # d # cs) =
     (if c = CHR 0x0A then cur # split_lines_acc [] (d # cs)
      else if c = CHR 0x0D \<and> d = CHR 0x0A then cur # split_lines_acc [] cs
      else split_lines_acc (cur @ [c]) (d # cs))"

definition split_lines :: "string \<Rightarrow> string list" where
  "split_lines text = split_lines_acc [] text"

section \<open>Paths: the POSIX functions of \<open>node:path\<close>\<close>

text \<open>
  The functions of \<open>node:path\<close> the program calls, in their POSIX variant (\<open>path.sep\<close> is
  the slash), written segment by segment: a path is cut at its slashes, the segments are
  normalised as \<open>normalizeString\<close> of Node does (empty and \<open>.\<close> segments go, \<open>..\<close> takes the
  segment before it away, or stays when above a relative start), and joined again.
\<close>

definition isAbsolute :: "string \<Rightarrow> bool" where
  "isAbsolute p = (case p of [] \<Rightarrow> False | c # _ \<Rightarrow> c = CHR ''/'')"

fun split_sep_acc :: "string \<Rightarrow> string \<Rightarrow> string list" where
  "split_sep_acc cur [] = [cur]"
| "split_sep_acc cur (c # cs) =
     (if c = CHR ''/'' then cur # split_sep_acc [] cs else split_sep_acc (cur @ [c]) cs)"

definition split_sep :: "string \<Rightarrow> string list" where
  "split_sep p = split_sep_acc [] p"

fun join_sep :: "string list \<Rightarrow> string" where
  "join_sep [] = []"
| "join_sep [s] = s"
| "join_sep (s # t # ts) = s @ CHR ''/'' # join_sep (t # ts)"

definition norm_step :: "bool \<Rightarrow> string list \<Rightarrow> string \<Rightarrow> string list" where
  "norm_step allowAboveRoot res seg =
     (if seg = [] \<or> seg = ''.'' then res
      else if seg = ''..'' then
        (if res \<noteq> [] \<and> last res \<noteq> ''..'' then butlast res
         else if allowAboveRoot then res @ [''..''] else res)
      else res @ [seg])"

definition norm_segs :: "bool \<Rightarrow> string \<Rightarrow> string list" where
  "norm_segs allowAboveRoot p = foldl (norm_step allowAboveRoot) [] (split_sep p)"

definition normalizeString :: "bool \<Rightarrow> string \<Rightarrow> string" where
  "normalizeString allowAboveRoot p = join_sep (norm_segs allowAboveRoot p)"

definition path_normalize :: "string \<Rightarrow> string" where
  "path_normalize p =
     (if p = [] then ''.''
      else
        let isAbs = isAbsolute p;
            trailingSeparator = (last p = CHR ''/'');
            q = normalizeString (\<not> isAbs) p
        in if q = [] then (if isAbs then ''/'' else if trailingSeparator then ''./'' else ''.'')
           else (if isAbs then ''/'' else []) @ q @ (if trailingSeparator then ''/'' else []))"

definition path_join :: "string list \<Rightarrow> string" where
  "path_join args =
     (let joined = join_sep (filter (\<lambda>a. a \<noteq> []) args)
      in if joined = [] then ''.'' else path_normalize joined)"

text \<open>
  \<open>path.resolve\<close> reads its arguments from the right, then the working directory, until the
  collected path is absolute.
\<close>

fun resolve_go :: "string list \<Rightarrow> string \<Rightarrow> string \<times> bool" where
  "resolve_go [] resolvedPath = (resolvedPath, False)"
| "resolve_go (p # ps) resolvedPath =
     (if p = [] then resolve_go ps resolvedPath
      else if isAbsolute p then (p @ CHR ''/'' # resolvedPath, True)
      else resolve_go ps (p @ CHR ''/'' # resolvedPath))"

definition path_resolve :: "string \<Rightarrow> string list \<Rightarrow> string" where
  "path_resolve cwd args =
     (case resolve_go (rev args @ [cwd]) [] of
        (resolvedPath, resolvedAbsolute) \<Rightarrow>
          let q = normalizeString (\<not> resolvedAbsolute) resolvedPath
          in if resolvedAbsolute then CHR ''/'' # q else if q \<noteq> [] then q else ''.'')"

fun common_prefix_len :: "string list \<Rightarrow> string list \<Rightarrow> nat" where
  "common_prefix_len (x # xs) (y # ys) = (if x = y then Suc (common_prefix_len xs ys) else 0)"
| "common_prefix_len xs ys = 0"

definition path_relative :: "string \<Rightarrow> string \<Rightarrow> string \<Rightarrow> string" where
  "path_relative cwd from to =
     (if from = to then []
      else
        let from' = path_resolve cwd [from];
            to' = path_resolve cwd [to]
        in if from' = to' then []
           else
             let fs = norm_segs False from';
                 ts = norm_segs False to';
                 k = common_prefix_len fs ts
             in join_sep (replicate (length fs - k) ''..'' @ drop k ts))"

text \<open>
  \<open>path.extname\<close>: the part of the last segment from its last dot on; empty when that segment
  has no dot, when its only dot is its first character, or when the segment is \<open>..\<close>.
\<close>

definition path_extname :: "string \<Rightarrow> string" where
  "path_extname p =
     (let segs = filter (\<lambda>a. a \<noteq> []) (split_sep p);
          base = (if segs = [] then [] else last segs);
          after = takeWhile (\<lambda>c. c \<noteq> CHR ''.'') (rev base)
      in if length after = length base then []
         else
           let startDot = length base - length after - 1
           in if startDot = 0 \<or> base = ''..'' then [] else drop startDot base)"


text \<open>
  \<open>normalizePathForMatch\<close> is \<open>p.replaceAll("\\\\", "/")\<close>.  The JavaScript literal
  \<open>"\\\\"\<close> denotes the two-character string made of two backslashes (code unit 0x5C), so
  every non-overlapping pair of backslashes, scanned from the left, becomes one slash.
\<close>

fun normalizePathForMatch :: "string \<Rightarrow> string" where
  "normalizePathForMatch (a # b # cs) =
     (if a = CHR 0x5C \<and> b = CHR 0x5C then CHR ''/'' # normalizePathForMatch cs
      else a # normalizePathForMatch (b # cs))"
| "normalizePathForMatch cs = cs"

section \<open>FileFilter: exclusion\<close>

text \<open>
  One \<open>for (const pat of pats) { if (pat && norm.includes(pat)) return true; }\<close> loop of
  \<open>shouldExclude\<close>: the empty pattern is falsy and is passed over.
\<close>

fun excludedBy :: "string \<Rightarrow> string list \<Rightarrow> bool" where
  "excludedBy nrm [] = False"
| "excludedBy nrm (pat # pats) =
     (if pat \<noteq> [] \<and> str_includes nrm pat then True else excludedBy nrm pats)"

definition shouldExclude :: "string \<Rightarrow> string list \<Rightarrow> string list \<Rightarrow> bool" where
  "shouldExclude filePath globalExclude rootExclude =
     (let nrm = normalizePathForMatch filePath
      in if excludedBy nrm globalExclude then True else excludedBy nrm rootExclude)"

text \<open>
  \<open>extOk\<close>: with no configured extension every file passes; otherwise the lower-cased
  extension must be one of the lower-cased configured ones.
\<close>

definition extOk :: "string \<Rightarrow> string list \<Rightarrow> bool" where
  "extOk filePath includeExtensions =
     (if includeExtensions = [] then True
      else toLowerCase (path_extname filePath) \<in> set (map toLowerCase includeExtensions))"

section \<open>The environment: file system, process and regular expressions\<close>

text \<open>
  What the program reads from outside is a parameter of the model.  Each function of
  \<open>node:fs/promises\<close> is a function from paths; \<open>None\<close> stands for a rejected promise.
  A \<open>Dirent\<close> of \<open>readdir(dir, {withFileTypes: true})\<close> reports the type of the entry
  itself (a symbolic link is a link, whatever it points to); \<open>stat\<close> follows links.
  File contents are bytes, \<open>utf8\<close> decodes them.  \<open>regexp_new q ignoreCase\<close> is
  \<open>new RegExp(q, ignoreCase ? "gi" : "g")\<close>: \<open>None\<close> when the pattern is malformed, else the
  search of the compiled pattern, which maps a subject and a start index to the end index of
  the first match that starts at or after the start index.
\<close>

datatype dkind = DSymbolicLink | DDirectory | DFile | DOther

record dirent =
  d_name :: string
  d_kind :: dkind

datatype skind = SDirectory | SFile | SOther

record stats =
  st_kind :: skind
  st_size :: nat

record env =
  homedir :: string
  cwd :: string
  fs_access :: "string \<Rightarrow> bool"
  fs_realpath :: "string \<Rightarrow> string option"
  fs_stat :: "string \<Rightarrow> stats option"
  fs_readdir :: "string \<Rightarrow> dirent list option"
  fs_readFile :: "string \<Rightarrow> string option"
  utf8 :: "string \<Rightarrow> string"
  regexp_new :: "string \<Rightarrow> bool \<Rightarrow> (string \<Rightarrow> nat \<Rightarrow> nat option) option"

section \<open>PathSafety\<close>

definition isWithinRoot :: "env \<Rightarrow> string \<Rightarrow> string \<Rightarrow> bool" where
  "isWithinRoot e rootDir candidatePath =
     (let rel = path_relative (cwd e) rootDir candidatePath
      in if rel = [] then True
         else if rel = ''..'' \<or> startsWith rel ''../'' then False
         else \<not> isAbsolute rel)"

definition expandHome :: "env \<Rightarrow> string \<Rightarrow> string" where
  "expandHome e p =
     (if p = ''~'' then homedir e
      else if startsWith p ''~/'' then path_join [homedir e, drop 2 p]
      else p)"

definition toAbsPath :: "env \<Rightarrow> string \<Rightarrow> string option \<Rightarrow> string" where
  "toAbsPath e inputPath baseDir =
     (let expanded = expandHome e (str_trim inputPath)
      in if isAbsolute expanded then path_normalize expanded
         else
           let base = (case baseDir of
                         None \<Rightarrow> cwd e
                       | Some b \<Rightarrow> if b = [] then cwd e else expandHome e b)
           in path_normalize (path_resolve (cwd e) [base, expanded]))"

definition pathExists :: "env \<Rightarrow> string \<Rightarrow> bool" where
  "pathExists e p = fs_access e p"

section \<open>RootRegistry\<close>

text \<open>
  The configuration as the host hands it over (\<open>Partial<PluginCfg>\<close>: every field may be
  missing) and as \<open>getPluginCfg\<close> completes it.  A JavaScript number is a \<^typ>\<open>real\<close>.
\<close>

record RootCfg =
  rc_id :: string
  rc_path :: string
  rc_kind :: "string option"
  rc_exclude :: "string list option"

record RawCfg =
  raw_roots :: "RootCfg list option"
  raw_maxFileBytes :: "real option"
  raw_maxHits :: "real option"
  raw_followSymlinks :: "bool option"
  raw_exclude :: "string list option"
  raw_includeExtensions :: "string list option"

record PluginCfg =
  cfg_roots :: "RootCfg list"
  cfg_maxFileBytes :: real
  cfg_maxHits :: real
  cfg_followSymlinks :: bool
  cfg_exclude :: "string list"
  cfg_includeExtensions :: "string list"

record api =
  pluginConfig :: "RawCfg option"
  workspace :: "string option"

datatype error =
    Misconfigured
  | InvalidRegExp
  | QueryRequired
  | RootIdAndRelPathRequired
  | EventNameRequired
  | UnknownRootId string
  | RootDoesNotExist string string
  | UnsafeRelPath
  | PathEscapesRoot
  | FileNotFound
  | PathEscapesRootSymlink
  | SymlinksNotAllowed
  | ExcludedByPolicy
  | NotAFile
  | ReadFailed

definition number_or :: "real option \<Rightarrow> real \<Rightarrow> real" where
  "number_or v dflt = (case v of Some x \<Rightarrow> if x > 0 then x else dflt | None \<Rightarrow> dflt)"

definition getPluginCfg :: "api \<Rightarrow> error + PluginCfg" where
  "getPluginCfg a =
     (let roots = (case pluginConfig a of
                     None \<Rightarrow> []
                   | Some raw \<Rightarrow> (case raw_roots raw of None \<Rightarrow> [] | Some rs \<Rightarrow> rs))
      in if roots = [] then Inl Misconfigured
         else
           (case pluginConfig a of
              None \<Rightarrow> Inl Misconfigured
            | Some raw \<Rightarrow>
                Inr \<lparr> cfg_roots = roots,
                      cfg_maxFileBytes = number_or (raw_maxFileBytes raw) 2000000,
                      cfg_maxHits = number_or (raw_maxHits raw) 200,
                      cfg_followSymlinks = (raw_followSymlinks raw = Some True),
                      cfg_exclude = (case raw_exclude raw of None \<Rightarrow> [] | Some xs \<Rightarrow> xs),
                      cfg_includeExtensions =
                        (case raw_includeExtensions raw of
                           None \<Rightarrow> []
                         | Some xs \<Rightarrow> filter (\<lambda>s. str_trim s \<noteq> []) xs) \<rparr>))"

record ResolvedRoot =
  r_id :: string
  r_kind :: "string option"
  r_path :: string
  r_exists :: bool
  r_exclude :: "string list"

definition resolveRoot :: "env \<Rightarrow> string option \<Rightarrow> RootCfg \<Rightarrow> ResolvedRoot" where
  "resolveRoot e workspaceDir r =
     (let absPath = toAbsPath e (rc_path r) workspaceDir
      in \<lparr> r_id = rc_id r,
           r_kind = rc_kind r,
           r_path = absPath,
           r_exists = pathExists e absPath,
           r_exclude = (case rc_exclude r of None \<Rightarrow> [] | Some xs \<Rightarrow> xs) \<rparr>)"

definition resolveRoots :: "env \<Rightarrow> api \<Rightarrow> error + (PluginCfg \<times> ResolvedRoot list)" where
  "resolveRoots e a =
     (case getPluginCfg a of
        Inl err \<Rightarrow> Inl err
      | Inr cfg \<Rightarrow> Inr (cfg, map (resolveRoot e (workspace a)) (cfg_roots cfg)))"

section \<open>Walker\<close>

text \<open>
  A loop body either goes on with a new state or makes the whole operation return.
\<close>

datatype ('r, 'c) ctl = Return 'r | Continue 'c

record WalkParams =
  w_rootDir :: string
  w_rootId :: string
  w_globalExclude :: "string list"
  w_rootExclude :: "string list"
  w_includeExtensions :: "string list"
  w_followSymlinks :: bool

text \<open>
  \<open>walkFiles\<close> is a generator, driven by the \<open>for await\<close> loop of its caller: that loop's
  body is the parameter \<open>body\<close>, run at every \<open>yield\<close> on the caller's state; when the body
  returns from the caller, the generator is abandoned where it stands.

  \<open>walk_entry\<close> is one turn of \<open>for (const ent of entries)\<close>.  The traversal stack is a
  list whose head is the top: \<open>push\<close> is \<open>#\<close>, \<open>pop\<close> takes the head.
\<close>

definition walk_entry ::
  "env \<Rightarrow> WalkParams \<Rightarrow> (string \<Rightarrow> 's \<Rightarrow> ('s, 's) ctl) \<Rightarrow> string \<Rightarrow> string \<Rightarrow> dirent
     \<Rightarrow> string list \<times> 's \<Rightarrow> ('s, string list \<times> 's) ctl" where
  "walk_entry e params body rootReal dir ent st =
     (let full = path_join [dir, d_name ent];
          yield = (case body full (snd st) of
                     Return r \<Rightarrow> Return r
                   | Continue s' \<Rightarrow> Continue (fst st, s'))
      in if shouldExclude full (w_globalExclude params) (w_rootExclude params) then Continue st
         else if d_kind ent = DSymbolicLink then
           (if \<not> w_followSymlinks params then Continue st
            else
              (case fs_realpath e full of
                 None \<Rightarrow> Continue st
               | Some realp \<Rightarrow>
                   if realp = [] \<or> \<not> isWithinRoot e rootReal realp then Continue st
                   else
                     (case fs_stat e full of
                        None \<Rightarrow> Continue st
                      | Some s \<Rightarrow>
                          if st_kind s = SDirectory then Continue (full # fst st, snd st)
                          else if st_kind s = SFile then
                            (if \<not> extOk full (w_includeExtensions params) then Continue st
                             else yield)
                          else Continue st)))
         else if d_kind ent = DDirectory then Continue (full # fst st, snd st)
         else if d_kind ent = DFile then
           (if \<not> extOk full (w_includeExtensions params) then Continue st else yield)
         else Continue st)"

fun walk_entries ::
  "env \<Rightarrow> WalkParams \<Rightarrow> (string \<Rightarrow> 's \<Rightarrow> ('s, 's) ctl) \<Rightarrow> string \<Rightarrow> string \<Rightarrow> dirent list
     \<Rightarrow> string list \<times> 's \<Rightarrow> ('s, string list \<times> 's) ctl" where
  "walk_entries e params body rootReal dir [] st = Continue st"
| "walk_entries e params body rootReal dir (ent # ents) st =
     (case walk_entry e params body rootReal dir ent st of
        Return r \<Rightarrow> Return r
      | Continue st' \<Rightarrow> walk_entries e params body rootReal dir ents st')"

text \<open>
  \<open>while (stack.length > 0)\<close>.  The loop need not end on every file system, so it runs on
  fuel, one unit per directory taken from the stack; \<open>None\<close> is a walk that the fuel did not
  see the end of.
\<close>

fun walk_loop ::
  "env \<Rightarrow> WalkParams \<Rightarrow> (string \<Rightarrow> 's \<Rightarrow> ('s, 's) ctl) \<Rightarrow> string \<Rightarrow> nat \<Rightarrow> string list \<Rightarrow> 's
     \<Rightarrow> ('s, 's) ctl option" where
  "walk_loop e params body rootReal fuel [] s = Some (Continue s)"
| "walk_loop e params body rootReal 0 (dir # stack) s = None"
| "walk_loop e params body rootReal (Suc fuel) (dir # stack) s =
     (if dir = [] then walk_loop e params body rootReal fuel stack s
      else
        (case fs_readdir e dir of
           None \<Rightarrow> walk_loop e params body rootReal fuel stack s
         | Some entries \<Rightarrow>
             (case walk_entries e params body rootReal dir entries (stack, s) of
                Return r \<Rightarrow> Some (Return r)
              | Continue (stack', s') \<Rightarrow> walk_loop e params body rootReal fuel stack' s')))"

definition walkFiles ::
  "env \<Rightarrow> WalkParams \<Rightarrow> (string \<Rightarrow> 's \<Rightarrow> ('s, 's) ctl) \<Rightarrow> nat \<Rightarrow> 's \<Rightarrow> ('s, 's) ctl option" where
  "walkFiles e params body fuel s =
     (let rootReal = (case fs_realpath e (w_rootDir params) of
                        None \<Rightarrow> w_rootDir params
                      | Some r \<Rightarrow> r)
      in walk_loop e params body rootReal fuel [w_rootDir params] s)"

section \<open>Reader\<close>

definition readTextFileLimited :: "env \<Rightarrow> string \<Rightarrow> real \<Rightarrow> string option" where
  "readTextFileLimited e filePath maxBytes =
     (case fs_stat e filePath of
        None \<Rightarrow> None
      | Some s \<Rightarrow>
          if st_kind s \<noteq> SFile then None
          else if real (st_size s) > maxBytes then None
          else map_option (utf8 e) (fs_readFile e filePath))"

section \<open>SearchEngine\<close>

text \<open>
  The matcher.  In substring mode it is a pure test.  In regex mode it is \<open>re.test(s)\<close> on
  one \<open>RegExp\<close> object that carries the \<open>g\<close> flag, so the object's \<open>lastIndex\<close> is read and
  written by every test: the search starts at \<open>lastIndex\<close>; a match leaves \<open>lastIndex\<close> at
  its end, a failure (or a \<open>lastIndex\<close> beyond the subject) resets it to 0.  The model
  threads \<open>lastIndex\<close> through the tests as a number next to the search result.
\<close>

datatype matcher =
    Substring bool string
  | Regex "string \<Rightarrow> nat \<Rightarrow> nat option"

definition makeMatcher :: "env \<Rightarrow> string \<Rightarrow> bool \<Rightarrow> bool \<Rightarrow> error + matcher" where
  "makeMatcher e query regex caseSensitive =
     (let q = (if caseSensitive then query else toLowerCase query)
      in if regex then
           (case regexp_new e query (\<not> caseSensitive) of
              None \<Rightarrow> Inl InvalidRegExp
            | Some re \<Rightarrow> Inr (Regex re))
         else Inr (Substring caseSensitive q))"

definition regexp_test :: "(string \<Rightarrow> nat \<Rightarrow> nat option) \<Rightarrow> nat \<Rightarrow> string \<Rightarrow> bool \<times> nat" where
  "regexp_test re lastIndex s =
     (if lastIndex > length s then (False, 0)
      else (case re s lastIndex of None \<Rightarrow> (False, 0) | Some endIndex \<Rightarrow> (True, endIndex)))"

fun matcher_test :: "matcher \<Rightarrow> nat \<Rightarrow> string \<Rightarrow> bool \<times> nat" where
  "matcher_test (Substring caseSensitive q) lastIndex s =
     (str_includes (if caseSensitive then s else toLowerCase s) q, lastIndex)"
| "matcher_test (Regex re) lastIndex s = regexp_test re lastIndex s"

record SearchHit =
  h_rootId :: string
  h_file :: string
  h_line :: nat
  h_text :: string

record SearchResult =
  hits :: "SearchHit list"
  scannedFiles :: nat
  skippedLargeFiles :: nat

record SearchParams =
  sp_query :: string
  sp_rootIds :: "string list option"
  sp_regex :: "bool option"
  sp_caseSensitive :: "bool option"
  sp_maxHits :: "real option"

definition entitle :: "string \<Rightarrow> string" where
  "entitle p = normalizePathForMatch p"

definition make_hit :: "env \<Rightarrow> ResolvedRoot \<Rightarrow> string \<Rightarrow> nat \<Rightarrow> string \<Rightarrow> SearchHit" where
  "make_hit e rt filePath i line =
     \<lparr> h_rootId = r_id rt,
       h_file = (let rel = path_relative (cwd e) (r_path rt) filePath
                 in if rel = [] then entitle filePath else rel),
       h_line = i + 1,
       h_text = take 400 line \<rparr>"

text \<open>
  \<open>for (let i = 0; i < lines.length; i += 1)\<close>, from index \<open>i\<close> on, over the lines still to
  test.  The state is the result under construction and the matcher's \<open>lastIndex\<close>.
\<close>

fun scan_lines ::
  "env \<Rightarrow> matcher \<Rightarrow> real \<Rightarrow> ResolvedRoot \<Rightarrow> string \<Rightarrow> string list \<Rightarrow> nat
     \<Rightarrow> SearchResult \<times> nat \<Rightarrow> (SearchResult \<times> nat, SearchResult \<times> nat) ctl" where
  "scan_lines e m maxHits rt filePath [] i st = Continue st"
| "scan_lines e m maxHits rt filePath (line # rest) i st =
     (case matcher_test m (snd st) line of
        (matched, lastIndex') \<Rightarrow>
          if \<not> matched then scan_lines e m maxHits rt filePath rest (i + 1) (fst st, lastIndex')
          else
            let res' = (fst st)\<lparr> hits := hits (fst st) @ [make_hit e rt filePath i line] \<rparr>
            in if real (length (hits res')) \<ge> maxHits then Return (res', lastIndex')
               else scan_lines e m maxHits rt filePath rest (i + 1) (res', lastIndex'))"

text \<open>The body of \<open>for await (const filePath of walkFiles(...))\<close>.\<close>

definition search_file ::
  "env \<Rightarrow> PluginCfg \<Rightarrow> matcher \<Rightarrow> real \<Rightarrow> ResolvedRoot \<Rightarrow> string
     \<Rightarrow> SearchResult \<times> nat \<Rightarrow> (SearchResult \<times> nat, SearchResult \<times> nat) ctl" where
  "search_file e cfg m maxHits rt filePath st =
     (if real (length (hits (fst st))) \<ge> maxHits then Return st
      else
        let res1 = (fst st)\<lparr> scannedFiles := scannedFiles (fst st) + 1 \<rparr>
        in (case readTextFileLimited e filePath (cfg_maxFileBytes cfg) of
              None \<Rightarrow> Continue (res1\<lparr> skippedLargeFiles := skippedLargeFiles res1 + 1 \<rparr>, snd st)
            | Some text \<Rightarrow>
                scan_lines e m maxHits rt filePath (split_lines text) 0 (res1, snd st)))"

definition walk_params :: "PluginCfg \<Rightarrow> ResolvedRoot \<Rightarrow> WalkParams" where
  "walk_params cfg rt =
     \<lparr> w_rootDir = r_path rt,
       w_rootId = r_id rt,
       w_globalExclude = cfg_exclude cfg,
       w_rootExclude = r_exclude rt,
       w_includeExtensions = cfg_includeExtensions cfg,
       w_followSymlinks = cfg_followSymlinks cfg \<rparr>"

text \<open>\<open>for (const root of selected)\<close>; every root's walk gets the same fuel.\<close>

fun search_roots ::
  "env \<Rightarrow> PluginCfg \<Rightarrow> matcher \<Rightarrow> real \<Rightarrow> nat \<Rightarrow> ResolvedRoot list
     \<Rightarrow> SearchResult \<times> nat \<Rightarrow> (SearchResult \<times> nat) option" where
  "search_roots e cfg m maxHits fuel [] st = Some st"
| "search_roots e cfg m maxHits fuel (rt # roots) st =
     (if \<not> r_exists rt then search_roots e cfg m maxHits fuel roots st
      else
        (case walkFiles e (walk_params cfg rt) (search_file e cfg m maxHits rt) fuel st of
           None \<Rightarrow> None
         | Some (Return st') \<Rightarrow> Some st'
         | Some (Continue st') \<Rightarrow> search_roots e cfg m maxHits fuel roots st'))"

definition select_roots :: "string list option \<Rightarrow> ResolvedRoot list \<Rightarrow> ResolvedRoot list" where
  "select_roots rootIds roots =
     (case rootIds of
        None \<Rightarrow> roots
      | Some ids \<Rightarrow> if length ids > 0 then filter (\<lambda>r. r_id r \<in> set ids) roots else roots)"

definition effective_maxHits :: "real option \<Rightarrow> PluginCfg \<Rightarrow> real" where
  "effective_maxHits maxHits cfg = number_or maxHits (cfg_maxHits cfg)"

definition empty_result :: SearchResult where
  "empty_result = \<lparr> hits = [], scannedFiles = 0, skippedLargeFiles = 0 \<rparr>"

text \<open>
  \<open>searchAcrossRoots\<close>: \<open>None\<close> when the fuel did not see the end of a walk, \<open>Some (Inl err)\<close>
  when the call raises, \<open>Some (Inr result)\<close> when it returns.
\<close>

definition searchAcrossRoots ::
  "env \<Rightarrow> api \<Rightarrow> nat \<Rightarrow> SearchParams \<Rightarrow> (error + SearchResult) option" where
  "searchAcrossRoots e a fuel params =
     (case resolveRoots e a of
        Inl err \<Rightarrow> Some (Inl err)
      | Inr (cfg, roots) \<Rightarrow>
          let selected = select_roots (sp_rootIds params) roots
          in (case makeMatcher e (sp_query params) (sp_regex params = Some True)
                     (sp_caseSensitive params = Some True) of
                Inl err \<Rightarrow> Some (Inl err)
              | Inr m \<Rightarrow>
                  let maxHits = effective_maxHits (sp_maxHits params) cfg
                  in map_option (\<lambda>st. Inr (fst st))
                       (search_roots e cfg m maxHits fuel selected (empty_result, 0))))"

section \<open>Direct read\<close>

record ReadResult =
  rd_rootId :: string
  rd_absPath :: string
  rd_relPath :: string
  rd_truncated :: bool
  rd_text :: string

definition readFileFromRoot ::
  "env \<Rightarrow> api \<Rightarrow> string \<Rightarrow> string \<Rightarrow> real option \<Rightarrow> error + ReadResult" where
  "readFileFromRoot e a rootId relPath maxBytesArg =
     (case resolveRoots e a of
        Inl err \<Rightarrow> Inl err
      | Inr (cfg, roots) \<Rightarrow>
          (case find (\<lambda>r. r_id r = rootId) roots of
             None \<Rightarrow> Inl (UnknownRootId rootId)
           | Some rt \<Rightarrow>
               if \<not> r_exists rt then Inl (RootDoesNotExist (r_id rt) (r_path rt))
               else
                 let rel = str_trim relPath
                 in if rel = [] \<or> startsWith rel ''/'' \<or> str_includes rel ''..''
                    then Inl UnsafeRelPath
                    else
                      let absPath = path_normalize (path_join [r_path rt, rel])
                      in if \<not> isWithinRoot e (r_path rt) absPath then Inl PathEscapesRoot
                         else
                           let relFromRoot = path_relative (cwd e) (r_path rt) absPath;
                               rootReal = (case fs_realpath e (r_path rt) of
                                             None \<Rightarrow> r_path rt
                                           | Some r \<Rightarrow> r)
                           in (case fs_realpath e absPath of
                                 None \<Rightarrow> Inl FileNotFound
                               | Some absReal \<Rightarrow>
                                   if absReal = [] then Inl FileNotFound
                                   else if \<not> isWithinRoot e rootReal absReal
                                   then Inl PathEscapesRootSymlink
                                   else
                                     let expectedReal =
                                           path_normalize (path_join [rootReal, relFromRoot])
                                     in if \<not> cfg_followSymlinks cfg \<and> absReal \<noteq> expectedReal
                                        then Inl SymlinksNotAllowed
                                        else if shouldExclude absPath (cfg_exclude cfg)
                                                  (r_exclude rt)
                                        then Inl ExcludedByPolicy
                                        else
                                          let maxBytes =
                                                number_or maxBytesArg (cfg_maxFileBytes cfg)
                                          in (case fs_stat e absPath of
                                                None \<Rightarrow> Inl FileNotFound
                                              | Some s \<Rightarrow>
                                                  if st_kind s \<noteq> SFile then Inl NotAFile
                                                  else
                                                    let truncated = (real (st_size s) > maxBytes)
                                                    in (case fs_readFile e absPath of
                                                          None \<Rightarrow> Inl ReadFailed
                                                        | Some buf \<Rightarrow>
                                                            let sliced =
                                                                  (if truncated
                                                                   then take (nat \<lfloor>maxBytes\<rfloor>) buf
                                                                   else buf)
                                                            in Inr \<lparr> rd_rootId = r_id rt,
                                                                     rd_absPath = absPath,
                                                                     rd_relPath = rel,
                                                                     rd_truncated = truncated,
                                                                     rd_text = utf8 e sliced \<rparr>)))))"

section \<open>The tools\<close>

record SearchArgs =
  sa_query :: "string option"
  sa_rootIds :: "string list option"
  sa_regex :: "bool option"
  sa_caseSensitive :: "bool option"
  sa_maxHits :: "real option"

definition audio_search ::
  "env \<Rightarrow> api \<Rightarrow> nat \<Rightarrow> SearchArgs
     \<Rightarrow> (error + string \<times> string list option \<times> SearchResult) option" where
  "audio_search e a fuel args =
     (let query = (case sa_query args of None \<Rightarrow> [] | Some q \<Rightarrow> q)
      in if str_trim query = [] then Some (Inl QueryRequired)
         else
           map_option (map_sum (\<lambda>err. err) (\<lambda>result. (query, sa_rootIds args, result)))
             (searchAcrossRoots e a fuel
                \<lparr> sp_query = query,
                  sp_rootIds = sa_rootIds args,
                  sp_regex = Some (sa_regex args = Some True),
                  sp_caseSensitive = Some (sa_caseSensitive args = Some True),
                  sp_maxHits = sa_maxHits args \<rparr>))"

definition audio_read ::
  "env \<Rightarrow> api \<Rightarrow> string option \<Rightarrow> string option \<Rightarrow> real option \<Rightarrow> error + ReadResult" where
  "audio_read e a rootIdArg relPathArg maxBytesArg =
     (let rootId = (case rootIdArg of None \<Rightarrow> [] | Some x \<Rightarrow> x);
          relPath = (case relPathArg of None \<Rightarrow> [] | Some x \<Rightarrow> x)
      in if str_trim rootId = [] \<or> str_trim relPath = [] then Inl RootIdAndRelPathRequired
         else readFileFromRoot e a rootId relPath maxBytesArg)"

text \<open>\<open>promise.catch(() => null)\<close>: a raised error becomes the absent result.\<close>

definition catch_null :: "error + 'a \<Rightarrow> 'a option" where
  "catch_null r = (case r of Inl err \<Rightarrow> None | Inr v \<Rightarrow> Some v)"

definition has_hits :: "SearchResult option \<Rightarrow> bool" where
  "has_hits r = ((case r of None \<Rightarrow> 0 | Some res \<Rightarrow> length (hits res)) > 0)"

record CheckResult =
  ck_eventName :: string
  ck_requirements :: "SearchResult option"
  ck_wwiseNameAttr :: "SearchResult option"
  ck_unityRefs :: "SearchResult option"
  ck_fallback :: "SearchResult option"
  ck_requirementsMentioned :: bool
  ck_wwiseProbablyDefined :: bool
  ck_unityReferenced :: bool

definition plain_search :: "string \<Rightarrow> string list option \<Rightarrow> SearchParams" where
  "plain_search q rootIds =
     \<lparr> sp_query = q, sp_rootIds = rootIds, sp_regex = None, sp_caseSensitive = None,
       sp_maxHits = None \<rparr>"

text \<open>
  \<open>audio_check_event\<close>: the three scoped searches are awaited together, then the unscoped
  one; the tool returns only when all four have settled.
\<close>

definition audio_check_event ::
  "env \<Rightarrow> api \<Rightarrow> nat \<Rightarrow> string option \<Rightarrow> (error + CheckResult) option" where
  "audio_check_event e a fuel eventNameArg =
     (let eventName = (case eventNameArg of None \<Rightarrow> [] | Some x \<Rightarrow> x)
      in if str_trim eventName = [] then Some (Inl EventNameRequired)
         else
           (case searchAcrossRoots e a fuel (plain_search eventName (Some [''requirements''])) of
              None \<Rightarrow> None
            | Some r1 \<Rightarrow>
           (case searchAcrossRoots e a fuel
                   (plain_search (''Name='' @ [CHR 0x22] @ eventName @ [CHR 0x22])
                      (Some [''wwise''])) of
              None \<Rightarrow> None
            | Some r2 \<Rightarrow>
           (case searchAcrossRoots e a fuel (plain_search eventName (Some [''unity''])) of
              None \<Rightarrow> None
            | Some r3 \<Rightarrow>
           (case searchAcrossRoots e a fuel (plain_search eventName None) of
              None \<Rightarrow> None
            | Some r4 \<Rightarrow>
                let req = catch_null r1; wwise = catch_null r2; unity = catch_null r3;
                    fallback = catch_null r4
                in Some (Inr \<lparr> ck_eventName = eventName,
                                ck_requirements = req,
                                ck_wwiseNameAttr = wwise,
                                ck_unityRefs = unity,
                                ck_fallback = fallback,
                                ck_requirementsMentioned = has_hits req,
                                ck_wwiseProbablyDefined = has_hits wwise,
                                ck_unityReferenced = has_hits unity \<rparr>))))))"

section \<open>What the walker does with one directory entry\<close>

text \<open>
  The decision \<open>walk_entry\<close> takes for an entry, apart from what the caller's loop body does
  with a yielded path: pass over the entry, push its path on the traversal stack, or yield
  its path.
\<close>

datatype action = Skip | Push string | Yield string

definition entry_action :: "env \<Rightarrow> WalkParams \<Rightarrow> string \<Rightarrow> string \<Rightarrow> dirent \<Rightarrow> action" where
  "entry_action e params rootReal dir ent =
     (let full = path_join [dir, d_name ent]
      in if shouldExclude full (w_globalExclude params) (w_rootExclude params) then Skip
         else if d_kind ent = DSymbolicLink then
           (if \<not> w_followSymlinks params then Skip
            else
              (case fs_realpath e full of
                 None \<Rightarrow> Skip
               | Some realp \<Rightarrow>
                   if realp = [] \<or> \<not> isWithinRoot e rootReal realp then Skip
                   else
                     (case fs_stat e full of
                        None \<Rightarrow> Skip
                      | Some s \<Rightarrow>
                          if st_kind s = SDirectory then Push full
                          else if st_kind s = SFile then
                            (if \<not> extOk full (w_includeExtensions params) then Skip
                             else Yield full)
                          else Skip)))
         else if d_kind ent = DDirectory then Push full
         else if d_kind ent = DFile then
           (if \<not> extOk full (w_includeExtensions params) then Skip else Yield full)
         else Skip)"

section \<open>Positions of the walk\<close>

text \<open>
  The positions the loop of \<open>walkFiles\<close> passes through.  \<open>walk_reach e params body rootReal n c c'\<close>
  holds when the loop, entered with the stack and the caller's state \<open>c\<close>, is at its head
  again with \<open>c'\<close> after \<open>n\<close> directories have been taken from the stack, the caller's loop
  body having returned at none of their entries.
\<close>

inductive walk_reach ::
  "env \<Rightarrow> WalkParams \<Rightarrow> (string \<Rightarrow> 's \<Rightarrow> ('s, 's) ctl) \<Rightarrow> string \<Rightarrow> nat
     \<Rightarrow> string list \<times> 's \<Rightarrow> string list \<times> 's \<Rightarrow> bool"
  for e params body rootReal where
  start: "walk_reach e params body rootReal 0 c c"
| unread: "dir = [] \<or> fs_readdir e dir = None \<Longrightarrow>
           walk_reach e params body rootReal n (stack, s) c \<Longrightarrow>
           walk_reach e params body rootReal (Suc n) (dir # stack, s) c"
| listed: "dir \<noteq> [] \<Longrightarrow> fs_readdir e dir = Some entries \<Longrightarrow>
           walk_entries e params body rootReal dir entries (stack, s) = Continue c1 \<Longrightarrow>
           walk_reach e params body rootReal n c1 c \<Longrightarrow>
           walk_reach e params body rootReal (Suc n) (dir # stack, s) c"

section \<open>The read operation's failure conditions\<close>

text \<open>
  Names for the values \<open>readFileFromRoot\<close> computes on its way: the root it selects, the
  normalised target path, the real path of the root and the real path the target should have
  when no symbolic link is involved.
\<close>

definition read_root :: "env \<Rightarrow> api \<Rightarrow> string \<Rightarrow> (PluginCfg \<times> ResolvedRoot) option" where
  "read_root e a rootId =
     (case resolveRoots e a of
        Inl err \<Rightarrow> None
      | Inr (cfg, roots) \<Rightarrow> map_option (\<lambda>rt. (cfg, rt)) (find (\<lambda>r. r_id r = rootId) roots))"

definition read_absPath :: "ResolvedRoot \<Rightarrow> string \<Rightarrow> string" where
  "read_absPath rt relPath = path_normalize (path_join [r_path rt, str_trim relPath])"

definition read_rootReal :: "env \<Rightarrow> ResolvedRoot \<Rightarrow> string" where
  "read_rootReal e rt = (case fs_realpath e (r_path rt) of None \<Rightarrow> r_path rt | Some r \<Rightarrow> r)"

definition read_expectedReal :: "env \<Rightarrow> ResolvedRoot \<Rightarrow> string \<Rightarrow> string" where
  "read_expectedReal e rt relPath =
     path_normalize
       (path_join [read_rootReal e rt,
                   path_relative (cwd e) (r_path rt) (read_absPath rt relPath)])"

text \<open>
  The failure condition in the words of the specification: the root id matches no configured
  root; the root is absent on disk; the trimmed path is empty, absolute or has a \<open>..\<close>
  segment; the target escapes the root, nominally or by its real path; the target matches an
  exclusion pattern; the target does not exist; the target is not a regular file.
\<close>

definition spec_read_fails :: "env \<Rightarrow> api \<Rightarrow> string \<Rightarrow> string \<Rightarrow> bool" where
  "spec_read_fails e a rootId relPath =
     (case read_root e a rootId of
        None \<Rightarrow> True
      | Some (cfg, rt) \<Rightarrow>
          \<not> r_exists rt
          \<or> str_trim relPath = []
          \<or> isAbsolute (str_trim relPath)
          \<or> ''..'' \<in> set (split_sep (str_trim relPath))
          \<or> \<not> isWithinRoot e (r_path rt) (read_absPath rt relPath)
          \<or> (case fs_realpath e (read_absPath rt relPath) of
                None \<Rightarrow> True
              | Some absReal \<Rightarrow> absReal = [] \<or> \<not> isWithinRoot e (read_rootReal e rt) absReal)
          \<or> shouldExclude (read_absPath rt relPath) (cfg_exclude cfg) (r_exclude rt)
          \<or> (case fs_stat e (read_absPath rt relPath) of
                None \<Rightarrow> True
              | Some s \<Rightarrow> st_kind s \<noteq> SFile))"

text \<open>
  What the code refuses beyond that list: a \<open>..\<close> anywhere in the trimmed path, a real
  path that differs from the expected one while links are not to be followed, and a file
  whose bytes cannot be read.
\<close>

definition read_also_refused :: "env \<Rightarrow> api \<Rightarrow> string \<Rightarrow> string \<Rightarrow> bool" where
  "read_also_refused e a rootId relPath =
     (case read_root e a rootId of
        None \<Rightarrow> False
      | Some (cfg, rt) \<Rightarrow>
          str_includes (str_trim relPath) ''..''
          \<or> (\<not> cfg_followSymlinks cfg
              \<and> fs_realpath e (read_absPath rt relPath) \<noteq> Some (read_expectedReal e rt relPath))
          \<or> fs_readFile e (read_absPath rt relPath) = None)"

section \<open>Well-formed file systems and containment\<close>

text \<open>
  A directory entry's name is a single proper path segment.
\<close>

definition valid_name :: "string \<Rightarrow> bool" where
  "valid_name n = (n \<noteq> [] \<and> CHR ''/'' \<notin> set n \<and> n \<noteq> ''.'' \<and> n \<noteq> ''..'')"

text \<open>The absolute path with the normalised segments of \<open>p\<close>.\<close>

definition canon :: "string \<Rightarrow> string" where
  "canon p = CHR ''/'' # join_sep (norm_segs False p)"

text \<open>
  What the containment argument takes for granted about the file system: \<open>readdir\<close> returns
  proper names; the real path of an entry that is not a symbolic link is the real path of
  its directory followed by its name; a directory that can be listed has a real path; real
  paths are absolute.
\<close>

definition fs_ok :: "env \<Rightarrow> bool" where
  "fs_ok e \<longleftrightarrow>
     (\<forall>d ents ent. fs_readdir e d = Some ents \<and> ent \<in> set ents \<longrightarrow> valid_name (d_name ent))
     \<and> (\<forall>d rd ents ent.
           fs_readdir e d = Some ents \<and> ent \<in> set ents \<and> d_kind ent \<noteq> DSymbolicLink
           \<and> fs_realpath e d = Some rd \<longrightarrow>
           fs_realpath e (path_join [d, d_name ent]) = Some (path_join [rd, d_name ent]))
     \<and> (\<forall>d ents. fs_readdir e d = Some ents \<longrightarrow> fs_realpath e d \<noteq> None)
     \<and> (\<forall>p r. fs_realpath e p = Some r \<longrightarrow> isAbsolute r)"

text \<open>
  A path reached from the root directory through directory entries none of which is a
  symbolic link.
\<close>

inductive plain_reach :: "env \<Rightarrow> string \<Rightarrow> string \<Rightarrow> bool" for e rootDir where
  root: "plain_reach e rootDir rootDir"
| child: "plain_reach e rootDir d \<Longrightarrow> fs_readdir e d = Some ents \<Longrightarrow> ent \<in> set ents \<Longrightarrow>
          d_kind ent \<noteq> DSymbolicLink \<Longrightarrow> plain_reach e rootDir (path_join [d, d_name ent])"

text \<open>
  The invariants of the walk: of a directory on the traversal stack, of a yielded file, and
  of a hit of the search.
\<close>

definition dir_inv :: "env \<Rightarrow> bool \<Rightarrow> string \<Rightarrow> string \<Rightarrow> string \<Rightarrow> bool" where
  "dir_inv e follow rootDir rootReal d \<longleftrightarrow>
     (fs_readdir e d \<noteq> None \<longrightarrow>
        isAbsolute rootReal \<and> (\<exists>rd. fs_realpath e d = Some rd \<and> isWithinRoot e rootReal rd))
     \<and> (\<not> follow \<longrightarrow> plain_reach e rootDir d)"

definition file_inv :: "env \<Rightarrow> bool \<Rightarrow> string \<Rightarrow> string \<Rightarrow> string \<Rightarrow> bool" where
  "file_inv e follow rootDir rootReal p \<longleftrightarrow>
     (\<exists>rp. fs_realpath e p = Some rp \<and> isWithinRoot e rootReal rp)
     \<and> (\<not> follow \<longrightarrow> plain_reach e rootDir p)"

definition hit_inv :: "env \<Rightarrow> PluginCfg \<Rightarrow> ResolvedRoot list \<Rightarrow> SearchHit \<Rightarrow> bool" where
  "hit_inv e cfg sel h \<longleftrightarrow>
     (\<exists>rt \<in> set sel. \<exists>filePath i line.
        h = make_hit e rt filePath i line
        \<and> file_inv e (cfg_followSymlinks cfg) (r_path rt) (read_rootReal e rt) filePath)"

section \<open>An example installation\<close>

text \<open>
  A regular expression without metacharacters matches its own text: the search returns the
  end of the first occurrence at or after the start index.
\<close>

fun literal_at :: "string \<Rightarrow> string \<Rightarrow> nat \<Rightarrow> nat option" where
  "literal_at pat [] pos = (if pat = [] then Some pos else None)"
| "literal_at pat (c # cs) pos =
     (if prefix pat (c # cs) then Some (pos + length pat) else literal_at pat cs (Suc pos))"

definition literal_regexp :: "string \<Rightarrow> bool \<Rightarrow> string \<Rightarrow> nat \<Rightarrow> nat option" where
  "literal_regexp pat ignoreCase s lastIndex =
     (if ignoreCase then literal_at (toLowerCase pat) (drop lastIndex (toLowerCase s)) lastIndex
      else literal_at pat (drop lastIndex s) lastIndex)"

text \<open>
  Three roots as in the repository's test (\<open>requirements\<close>, \<open>wwise\<close>, \<open>unity\<close>), one
  configured root that is not on disk, a link inside the \<open>unity\<close> root to a file of that
  root and a link that leaves it.
\<close>

definition demo_files :: "(string \<times> string) list" where
  "demo_files =
     [(''/g/req/audio.md'',
         ''Need UI_Draw in bank UI.'' @ [CHR 0x0D, CHR 0x0A] @ ''UI_Draw again'' @ [CHR 0x0A]
           @ ''no match here''),
      (''/g/req/notes..md'', ''UI_Draw notes''),
      (''/g/wwise/Events.wwu'',
         ''<Event Name='' @ [CHR 0x22] @ ''UI_Draw'' @ [CHR 0x22] @ '' Id=1/>''),
      (''/g/unity/Audio.cs'', ''PostEvent(UI_Draw, go);''),
      (''/etc/secret.cs'', ''UI_Draw secret'')]"

definition demo_dirs :: "(string \<times> dirent list) list" where
  "demo_dirs =
     [(''/g/req'',
         [\<lparr>d_name = ''audio.md'', d_kind = DFile\<rparr>, \<lparr>d_name = ''notes..md'', d_kind = DFile\<rparr>]),
      (''/g/wwise'', [\<lparr>d_name = ''Events.wwu'', d_kind = DFile\<rparr>]),
      (''/g/unity'',
         [\<lparr>d_name = ''link.cs'', d_kind = DSymbolicLink\<rparr>,
          \<lparr>d_name = ''out.cs'', d_kind = DSymbolicLink\<rparr>,
          \<lparr>d_name = ''Audio.cs'', d_kind = DFile\<rparr>])]"

definition demo_links :: "(string \<times> string) list" where
  "demo_links =
     [(''/g/unity/link.cs'', ''/g/unity/Audio.cs''), (''/g/unity/out.cs'', ''/etc/secret.cs'')]"

definition demo_target :: "string \<Rightarrow> string" where
  "demo_target p = (case map_of demo_links p of None \<Rightarrow> p | Some t \<Rightarrow> t)"

definition demo_env :: env where
  "demo_env =
     \<lparr> homedir = ''/home/u'',
       cwd = ''/w'',
       fs_access = (\<lambda>p. demo_target p \<in> set (map fst demo_dirs @ map fst demo_files)),
       fs_realpath =
         (\<lambda>p. if demo_target p \<in> set (map fst demo_dirs @ map fst demo_files)
              then Some (demo_target p) else None),
       fs_stat =
         (\<lambda>p. case map_of demo_files (demo_target p) of
                Some b \<Rightarrow> Some \<lparr>st_kind = SFile, st_size = length b\<rparr>
              | None \<Rightarrow>
                  if demo_target p \<in> set (map fst demo_dirs)
                  then Some \<lparr>st_kind = SDirectory, st_size = 0\<rparr> else None),
       fs_readdir = map_of demo_dirs,
       fs_readFile = (\<lambda>p. map_of demo_files (demo_target p)),
       utf8 = (\<lambda>b. b),
       regexp_new = (\<lambda>q ignoreCase. Some (literal_regexp q ignoreCase)) \<rparr>"

definition demo_roots :: "RootCfg list" where
  "demo_roots =
     [\<lparr>rc_id = ''requirements'', rc_path = ''/g/req'', rc_kind = None, rc_exclude = None\<rparr>,
      \<lparr>rc_id = ''wwise'', rc_path = ''/g/wwise'', rc_kind = None, rc_exclude = None\<rparr>,
      \<lparr>rc_id = ''unity'', rc_path = ''/g/unity'', rc_kind = None, rc_exclude = None\<rparr>,
      \<lparr>rc_id = ''gone'', rc_path = ''/g/gone'', rc_kind = None, rc_exclude = None\<rparr>]"

definition demo_raw :: RawCfg where
  "demo_raw =
     \<lparr> raw_roots = Some demo_roots,
       raw_maxFileBytes = Some 200000,
       raw_maxHits = Some 50,
       raw_followSymlinks = Some False,
       raw_exclude = Some [''/.git/'', ''/Library/'', ''/Temp/''],
       raw_includeExtensions = Some [''.xml'', ''.wwu'', ''.cs'', ''.md''] \<rparr>"

definition demo_api :: api where
  "demo_api = \<lparr> pluginConfig = Some demo_raw, workspace = Some ''/w'' \<rparr>"

definition demo_api_small :: api where
  "demo_api_small =
     \<lparr> pluginConfig = Some (demo_raw\<lparr> raw_maxFileBytes := Some 10 \<rparr>), workspace = Some ''/w'' \<rparr>"

definition demo_api_follow :: api where
  "demo_api_follow =
     \<lparr> pluginConfig = Some (demo_raw\<lparr> raw_followSymlinks := Some True \<rparr>),
       workspace = Some ''/w'' \<rparr>"

section \<open>Properties of the exclusion filter\<close>

lemma str_includes_sublist: "str_includes s p \<longleftrightarrow> sublist p s"
  by (induction s) (auto simp: sublist_Cons_right)

lemma excludedBy_iff:
  "excludedBy nrm pats \<longleftrightarrow> (\<exists>pat \<in> set pats. pat \<noteq> [] \<and> sublist pat nrm)"
  by (induction pats) (auto simp: str_includes_sublist)

text \<open>
  Claim C6, as the code has it: \<open>shouldExclude\<close> answers true exactly when some
  \<^emph>\<open>non-empty\<close> pattern, global or root-specific, is a literal contiguous substring of the
  path as rewritten by \<open>normalizePathForMatch\<close>; hence the answer depends on the two
  pattern lists only through the set of patterns they hold, not on their order.
\<close>

theorem shouldExclude_iff_nonempty_substring:
  "(shouldExclude filePath globalExclude rootExclude \<longleftrightarrow>
      (\<exists>pat \<in> set globalExclude \<union> set rootExclude.
         pat \<noteq> [] \<and> sublist pat (normalizePathForMatch filePath)))
   \<and> (\<forall>globalExclude' rootExclude'.
         set globalExclude' \<union> set rootExclude' = set globalExclude \<union> set rootExclude \<longrightarrow>
         shouldExclude filePath globalExclude' rootExclude' =
         shouldExclude filePath globalExclude rootExclude)"
proof -
  have char: "\<And>g r. shouldExclude filePath g r \<longleftrightarrow>
      (\<exists>pat \<in> set g \<union> set r. pat \<noteq> [] \<and> sublist pat (normalizePathForMatch filePath))"
    by (auto simp: shouldExclude_def Let_def excludedBy_iff)
  show ?thesis
  proof (intro conjI allI impI)
    show "shouldExclude filePath globalExclude rootExclude \<longleftrightarrow>
      (\<exists>pat \<in> set globalExclude \<union> set rootExclude.
         pat \<noteq> [] \<and> sublist pat (normalizePathForMatch filePath))"
      by (rule char)
  next
    fix g' r'
    assume "set g' \<union> set r' = set globalExclude \<union> set rootExclude"
    then show "shouldExclude filePath g' r' = shouldExclude filePath globalExclude rootExclude"
      by (simp add: char)
  qed
qed

theorem shouldExclude_iff_nonempty_substring_witness:
  "shouldExclude ''/r/Library/a.md'' [''/.git/'', ''/Library/''] [''/Temp/'']
   \<and> shouldExclude ''/r/Library/a.md'' [''/Temp/''] [''/Library/'', ''/.git/'']
   \<and> \<not> shouldExclude ''/r/docs/a.md'' [''/.git/'', ''/Library/''] [''/Temp/'']"
proof -
  have a: "shouldExclude ''/r/Library/a.md'' [''/.git/'', ''/Library/''] [''/Temp/'']"
    by (simp add: shouldExclude_def)
  have s: "set [''/Temp/''] \<union> set [''/Library/'', ''/.git/'']
         = set [''/.git/'', ''/Library/''] \<union> set [''/Temp/'']"
    by auto
  have b: "shouldExclude ''/r/Library/a.md'' [''/Temp/''] [''/Library/'', ''/.git/'']
         = shouldExclude ''/r/Library/a.md'' [''/.git/'', ''/Library/''] [''/Temp/'']"
    using shouldExclude_iff_nonempty_substring
            [of "''/r/Library/a.md''" "[''/.git/'', ''/Library/'']" "[''/Temp/'']"] s
    by blast
  have c: "\<not> shouldExclude ''/r/docs/a.md'' [''/.git/'', ''/Library/''] [''/Temp/'']"
    by (simp add: shouldExclude_def)
  from a b c show ?thesis by simp
qed

text \<open>
  The claim as worded fails for the empty pattern: the empty string is a substring of every
  path, yet \<open>shouldExclude\<close> passes over it.
\<close>

theorem shouldExclude_empty_pattern_counterexample:
  "sublist [] (normalizePathForMatch ''/r/a.md'') \<and> \<not> shouldExclude ''/r/a.md'' [[]] []"
  by (simp add: shouldExclude_def)

section \<open>Root resolution and absent roots\<close>

lemma getPluginCfg_error_iff:
  "(\<exists>err. getPluginCfg a = Inl err) \<longleftrightarrow>
     (case pluginConfig a of None \<Rightarrow> True | Some raw \<Rightarrow> (case raw_roots raw of None \<Rightarrow> True | Some rs \<Rightarrow> rs = []))"
  by (auto simp: getPluginCfg_def Let_def split: option.splits)

lemma getPluginCfg_error_kind: "getPluginCfg a = Inl err \<Longrightarrow> err = Misconfigured"
  by (auto simp: getPluginCfg_def Let_def split: option.splits if_splits)

lemma search_roots_skip_absent:
  "search_roots e cfg m maxHits fuel roots st
     = search_roots e cfg m maxHits fuel (filter r_exists roots) st"
  by (induction roots arbitrary: st) (auto split: option.splits ctl.splits)

lemma search_roots_all_absent:
  "\<forall>r \<in> set roots. \<not> r_exists r \<Longrightarrow> search_roots e cfg m maxHits fuel roots st = Some st"
  by (induction roots) auto

text \<open>
  Claim C8.  Root resolution raises exactly when no root is configured (no plugin
  configuration, no root list, or an empty one), and what it raises is the configuration
  error.  Otherwise every configured root is resolved, never raising, and its \<open>exists\<close>
  flag is the outcome of the access probe on its absolute path, so an unreachable root is
  reported with \<open>exists = false\<close>.  The search loop passes over the roots that do not
  exist: it computes what it would compute without them, and a search whose selected roots
  are all absent returns the empty result (no hit, no scanned file) on any fuel.
\<close>

theorem root_resolution_and_absent_roots:
  "((\<exists>err. resolveRoots e a = Inl err) \<longleftrightarrow>
      (case pluginConfig a of
         None \<Rightarrow> True
       | Some raw \<Rightarrow> (case raw_roots raw of None \<Rightarrow> True | Some rs \<Rightarrow> rs = [])))
   \<and> (\<forall>err. resolveRoots e a = Inl err \<longrightarrow> err = Misconfigured)
   \<and> (\<forall>cfg roots. resolveRoots e a = Inr (cfg, roots) \<longrightarrow>
         roots = map (resolveRoot e (workspace a)) (cfg_roots cfg)
         \<and> (\<forall>r \<in> set (cfg_roots cfg).
               r_exists (resolveRoot e (workspace a) r)
                 = fs_access e (toAbsPath e (rc_path r) (workspace a))))
   \<and> (\<forall>cfg m maxHits fuel roots st.
         search_roots e cfg m maxHits fuel roots st
           = search_roots e cfg m maxHits fuel (filter r_exists roots) st)
   \<and> (\<forall>cfg roots m fuel (params :: SearchParams).
         resolveRoots e a = Inr (cfg, roots)
         \<and> makeMatcher e (sp_query params) (sp_regex params = Some True)
               (sp_caseSensitive params = Some True) = Inr m
         \<and> (\<forall>r \<in> set (select_roots (sp_rootIds params) roots). \<not> r_exists r)
         \<longrightarrow> searchAcrossRoots e a fuel params = Some (Inr empty_result))"
proof (intro conjI allI impI ballI)
  show "(\<exists>err. resolveRoots e a = Inl err) \<longleftrightarrow>
      (case pluginConfig a of
         None \<Rightarrow> True
       | Some raw \<Rightarrow> (case raw_roots raw of None \<Rightarrow> True | Some rs \<Rightarrow> rs = []))"
    using getPluginCfg_error_iff [of a]
    by (auto simp: resolveRoots_def split: sum.splits)
next
  fix err assume "resolveRoots e a = Inl err"
  then show "err = Misconfigured"
    by (auto simp: resolveRoots_def split: sum.splits dest: getPluginCfg_error_kind)
next
  fix cfg roots assume "resolveRoots e a = Inr (cfg, roots)"
  then show "roots = map (resolveRoot e (workspace a)) (cfg_roots cfg)"
    by (auto simp: resolveRoots_def split: sum.splits)
next
  fix cfg roots r
  show "r_exists (resolveRoot e (workspace a) r)
          = fs_access e (toAbsPath e (rc_path r) (workspace a))"
    by (simp add: resolveRoot_def Let_def pathExists_def)
next
  fix cfg m maxHits fuel roots st
  show "search_roots e cfg m maxHits fuel roots st
           = search_roots e cfg m maxHits fuel (filter r_exists roots) st"
    by (rule search_roots_skip_absent)
next
  fix cfg roots m fuel and params :: SearchParams
  assume h: "resolveRoots e a = Inr (cfg, roots)
         \<and> makeMatcher e (sp_query params) (sp_regex params = Some True)
               (sp_caseSensitive params = Some True) = Inr m
         \<and> (\<forall>r \<in> set (select_roots (sp_rootIds params) roots). \<not> r_exists r)"
  then show "searchAcrossRoots e a fuel params = Some (Inr empty_result)"
    by (simp add: searchAcrossRoots_def Let_def search_roots_all_absent)
qed

theorem root_resolution_and_absent_roots_witness:
  "searchAcrossRoots demo_env demo_api 0 (plain_search ''UI_Draw'' (Some [''gone'']))
     = Some (Inr empty_result)
   \<and> \<not> r_exists (resolveRoot demo_env (workspace demo_api) (demo_roots ! 3))
   \<and> (\<exists>err. resolveRoots demo_env \<lparr>pluginConfig = None, workspace = None\<rparr> = Inl err)"
proof -
  obtain cfg roots where r: "resolveRoots demo_env demo_api = Inr (cfg, roots)"
    by (cases "resolveRoots demo_env demo_api")
       (auto simp: resolveRoots_def getPluginCfg_def demo_api_def demo_raw_def demo_roots_def Let_def)
  have m: "makeMatcher demo_env (sp_query (plain_search ''UI_Draw'' (Some [''gone''])))
             (sp_regex (plain_search ''UI_Draw'' (Some [''gone''])) = Some True)
             (sp_caseSensitive (plain_search ''UI_Draw'' (Some [''gone''])) = Some True)
           = Inr (Substring False (toLowerCase ''UI_Draw''))"
    by (simp add: makeMatcher_def plain_search_def)
  have roots: "roots = map (resolveRoot demo_env (workspace demo_api)) (cfg_roots cfg)"
    using root_resolution_and_absent_roots [of demo_env demo_api] r by blast
  have cr: "cfg_roots cfg = demo_roots"
    using r by (auto simp: resolveRoots_def getPluginCfg_def demo_api_def demo_raw_def Let_def
                  split: sum.splits if_splits)
  have gone: "\<not> r_exists (resolveRoot demo_env (workspace demo_api) (demo_roots ! 3))"
    by code_simp
  have sel: "\<forall>r \<in> set (select_roots (sp_rootIds (plain_search ''UI_Draw'' (Some [''gone'']))) roots).
               \<not> r_exists r"
    unfolding roots cr by code_simp
  have 1: "searchAcrossRoots demo_env demo_api 0 (plain_search ''UI_Draw'' (Some [''gone'']))
     = Some (Inr empty_result)"
    using root_resolution_and_absent_roots [of demo_env demo_api] r m sel by blast
  have 3: "\<exists>err. resolveRoots demo_env \<lparr>pluginConfig = None, workspace = None\<rparr> = Inl err"
    using root_resolution_and_absent_roots [of demo_env "\<lparr>pluginConfig = None, workspace = None\<rparr>"] by simp
  from 1 gone 3 show ?thesis by blast
qed

section \<open>Restricting a search to root ids\<close>

lemma walk_params_roots_irrelevant: "walk_params (cfg\<lparr>cfg_roots := x\<rparr>) rt = walk_params cfg rt"
  by (simp add: walk_params_def)

lemma search_file_roots_irrelevant:
  "search_file e (cfg\<lparr>cfg_roots := x\<rparr>) m maxHits rt = search_file e cfg m maxHits rt"
  by (rule ext)+ (simp add: search_file_def)

lemma search_roots_roots_irrelevant:
  "search_roots e (cfg\<lparr>cfg_roots := x\<rparr>) m maxHits fuel roots st
     = search_roots e cfg m maxHits fuel roots st"
  by (induction roots arbitrary: st)
     (auto simp: walk_params_roots_irrelevant search_file_roots_irrelevant
           split: option.splits ctl.splits)

lemma resolveRoots_Some:
  "pluginConfig a = Some raw \<Longrightarrow> raw_roots raw = Some rcs \<Longrightarrow> rcs \<noteq> [] \<Longrightarrow>
   \<exists>cfg. resolveRoots e a = Inr (cfg, map (resolveRoot e (workspace a)) rcs) \<and> cfg_roots cfg = rcs
     \<and> getPluginCfg a = Inr cfg"
  by (simp add: resolveRoots_def getPluginCfg_def Let_def)

lemma getPluginCfg_restrict:
  "pluginConfig a = Some raw \<Longrightarrow> raw_roots raw = Some rcs \<Longrightarrow> getPluginCfg a = Inr cfg \<Longrightarrow>
   rcs' \<noteq> [] \<Longrightarrow>
   getPluginCfg (a\<lparr>pluginConfig := Some (raw\<lparr>raw_roots := Some rcs'\<rparr>)\<rparr>) = Inr (cfg\<lparr>cfg_roots := rcs'\<rparr>)"
  by (auto simp: getPluginCfg_def Let_def split: if_splits)

lemma filter_resolved:
  "filter (\<lambda>r. r_id r \<in> S) (map (resolveRoot e w) rcs)
     = map (resolveRoot e w) (filter (\<lambda>r. rc_id r \<in> S) rcs)"
  by (induction rcs) (auto simp: resolveRoot_def Let_def)

text \<open>
  Claim C9, as the code has it.  With a non-empty list of root ids the search runs over
  exactly the configured roots whose id is in the list: it returns what a search without a
  list returns on the configuration restricted to those roots, and when no configured root
  has a listed id it returns the empty result.  With an empty list, as with no list, the
  search runs over all configured roots.
\<close>

theorem search_root_restriction:
  fixes params :: SearchParams
  assumes cfg: "pluginConfig a = Some raw" "raw_roots raw = Some rcs"
  shows "(ids \<noteq> [] \<and> filter (\<lambda>r. rc_id r \<in> set ids) rcs \<noteq> [] \<longrightarrow>
            searchAcrossRoots e a fuel (params\<lparr>sp_rootIds := Some ids\<rparr>)
              = searchAcrossRoots e
                  (a\<lparr>pluginConfig := Some (raw\<lparr>raw_roots := Some (filter (\<lambda>r. rc_id r \<in> set ids) rcs)\<rparr>)\<rparr>)
                  fuel (params\<lparr>sp_rootIds := None\<rparr>))
       \<and> (ids \<noteq> [] \<and> rcs \<noteq> [] \<and> filter (\<lambda>r. rc_id r \<in> set ids) rcs = []
            \<and> makeMatcher e (sp_query params) (sp_regex params = Some True)
                  (sp_caseSensitive params = Some True) = Inr m \<longrightarrow>
            searchAcrossRoots e a fuel (params\<lparr>sp_rootIds := Some ids\<rparr>) = Some (Inr empty_result))
       \<and> searchAcrossRoots e a fuel (params\<lparr>sp_rootIds := Some []\<rparr>)
            = searchAcrossRoots e a fuel (params\<lparr>sp_rootIds := None\<rparr>)
       \<and> searchAcrossRoots e a fuel (params\<lparr>sp_rootIds := None\<rparr>)
            = searchAcrossRoots e a fuel (params\<lparr>sp_rootIds := Some (map rc_id rcs)\<rparr>)"
proof (intro conjI impI)
  assume h: "ids \<noteq> [] \<and> filter (\<lambda>r. rc_id r \<in> set ids) rcs \<noteq> []"
  let ?rcs' = "filter (\<lambda>r. rc_id r \<in> set ids) rcs"
  let ?a' = "a\<lparr>pluginConfig := Some (raw\<lparr>raw_roots := Some ?rcs'\<rparr>)\<rparr>"
  from h have ne: "rcs \<noteq> []" by auto
  from resolveRoots_Some [OF cfg ne, of e] obtain cfg where
    r: "resolveRoots e a = Inr (cfg, map (resolveRoot e (workspace a)) rcs)" and g: "getPluginCfg a = Inr cfg"
    by blast
  have g': "getPluginCfg ?a' = Inr (cfg\<lparr>cfg_roots := ?rcs'\<rparr>)"
    using getPluginCfg_restrict [OF cfg g] h by blast
  have r': "resolveRoots e ?a' = Inr (cfg\<lparr>cfg_roots := ?rcs'\<rparr>, map (resolveRoot e (workspace a)) ?rcs')"
    by (simp add: resolveRoots_def g')
  show "searchAcrossRoots e a fuel (params\<lparr>sp_rootIds := Some ids\<rparr>)
              = searchAcrossRoots e ?a' fuel (params\<lparr>sp_rootIds := None\<rparr>)"
    using h
    by (auto simp: searchAcrossRoots_def r r' select_roots_def filter_resolved
          search_roots_roots_irrelevant effective_maxHits_def Let_def split: sum.splits)
next
  assume h: "ids \<noteq> [] \<and> rcs \<noteq> [] \<and> filter (\<lambda>r. rc_id r \<in> set ids) rcs = []
            \<and> makeMatcher e (sp_query params) (sp_regex params = Some True)
                  (sp_caseSensitive params = Some True) = Inr m"
  then have ne: "rcs \<noteq> []" by simp
  from resolveRoots_Some [OF cfg ne, of e] obtain cfg where
    r: "resolveRoots e a = Inr (cfg, map (resolveRoot e (workspace a)) rcs)"
    by blast
  show "searchAcrossRoots e a fuel (params\<lparr>sp_rootIds := Some ids\<rparr>) = Some (Inr empty_result)"
    using h by (simp add: searchAcrossRoots_def r select_roots_def filter_resolved Let_def)
next
  show "searchAcrossRoots e a fuel (params\<lparr>sp_rootIds := Some []\<rparr>)
            = searchAcrossRoots e a fuel (params\<lparr>sp_rootIds := None\<rparr>)"
    by (auto simp: searchAcrossRoots_def select_roots_def split: sum.splits prod.splits)
next
  have "filter (\<lambda>r. r_id r \<in> set (map rc_id rcs)) (map (resolveRoot e w) rcs) = map (resolveRoot e w) rcs" for w
    by (simp add: filter_resolved filter_id_conv)
  then show "searchAcrossRoots e a fuel (params\<lparr>sp_rootIds := None\<rparr>)
            = searchAcrossRoots e a fuel (params\<lparr>sp_rootIds := Some (map rc_id rcs)\<rparr>)"
    using cfg
    by (auto simp: searchAcrossRoots_def select_roots_def resolveRoots_def getPluginCfg_def Let_def
             split: sum.splits)
qed

theorem search_root_restriction_witness:
  "searchAcrossRoots demo_env demo_api 1
     (plain_search ''UI_Draw'' (Some [''wwise'', ''nosuch'']))
     = searchAcrossRoots demo_env
         (demo_api\<lparr>pluginConfig := Some (demo_raw\<lparr>raw_roots := Some [demo_roots ! 1]\<rparr>)\<rparr>) 1
         (plain_search ''UI_Draw'' None)
   \<and> searchAcrossRoots demo_env demo_api 1 (plain_search ''UI_Draw'' (Some [''nosuch'']))
       = Some (Inr empty_result)"
proof -
  have c: "pluginConfig demo_api = Some demo_raw" "raw_roots demo_raw = Some demo_roots"
    by (simp_all add: demo_api_def demo_raw_def)
  have f1: "filter (\<lambda>r. rc_id r \<in> set [''wwise'', ''nosuch'']) demo_roots = [demo_roots ! 1]"
    by (simp add: demo_roots_def)
  have f2: "filter (\<lambda>r. rc_id r \<in> set [''nosuch'']) demo_roots = []"
    by (simp add: demo_roots_def)
  have ne: "demo_roots \<noteq> []" by (simp add: demo_roots_def)
  have m: "makeMatcher demo_env (sp_query (plain_search ''UI_Draw'' None))
             (sp_regex (plain_search ''UI_Draw'' None) = Some True)
             (sp_caseSensitive (plain_search ''UI_Draw'' None) = Some True)
           = Inr (Substring False (toLowerCase ''UI_Draw''))"
    by (simp add: makeMatcher_def plain_search_def)
  have u: "(plain_search ''UI_Draw'' None)\<lparr>sp_rootIds := Some ids\<rparr> = plain_search ''UI_Draw'' (Some ids)"
      "(plain_search ''UI_Draw'' None)\<lparr>sp_rootIds := None\<rparr> = plain_search ''UI_Draw'' None" for ids
    by (simp_all add: plain_search_def)
  note t = search_root_restriction [OF c, where params = "plain_search ''UI_Draw'' None" and e = demo_env and fuel = 1]
  have 1: "searchAcrossRoots demo_env demo_api 1
     (plain_search ''UI_Draw'' (Some [''wwise'', ''nosuch'']))
     = searchAcrossRoots demo_env
         (demo_api\<lparr>pluginConfig := Some (demo_raw\<lparr>raw_roots := Some [demo_roots ! 1]\<rparr>)\<rparr>) 1
         (plain_search ''UI_Draw'' None)"
    using t [where ids = "[''wwise'', ''nosuch'']"] f1 by (simp add: u)
  have 2: "searchAcrossRoots demo_env demo_api 1 (plain_search ''UI_Draw'' (Some [''nosuch'']))
       = Some (Inr empty_result)"
    using t [where ids = "[''nosuch'']" and m = "Substring False (toLowerCase ''UI_Draw'')"] f2 ne m
    by (simp add: u)
  from 1 2 show ?thesis by simp
qed

text \<open>
  The claim as worded fails for the empty list: it is a given list that holds no known id,
  yet the search runs over every root and returns a hit.
\<close>

theorem empty_rootIds_searches_all_counterexample:
  "searchAcrossRoots demo_env demo_api 1 (plain_search ''again'' (Some []))
     = Some (Inr \<lparr> hits = [\<lparr> h_rootId = ''requirements'', h_file = ''audio.md'', h_line = 2,
                              h_text = ''UI_Draw again'' \<rparr>],
                    scannedFiles = 4, skippedLargeFiles = 0 \<rparr>)"
  by code_simp

section \<open>The direct read\<close>

lemma split_sep_acc_sublist: "x \<in> set (split_sep_acc cur p) \<Longrightarrow> sublist x (cur @ p)"
proof (induction p arbitrary: cur)
  case Nil
  then show ?case by simp
next
  case (Cons c cs)
  show ?case
  proof (cases "c = CHR ''/''")
    case True
    with Cons.prems have "x = cur \<or> x \<in> set (split_sep_acc [] cs)" by simp
    then show ?thesis
    proof
      assume "x = cur"
      then show ?thesis by (simp add: sublist_append_rightI)
    next
      assume "x \<in> set (split_sep_acc [] cs)"
      from Cons.IH [OF this] have "sublist x cs" by simp
      then have "sublist x (c # cs)" by (rule sublist_Cons_right [THEN iffD2, OF disjI2])
      then show ?thesis by (simp add: sublist_append)
    qed
  next
    case False
    with Cons.prems have "x \<in> set (split_sep_acc (cur @ [c]) cs)" by simp
    from Cons.IH [OF this] show ?thesis by simp
  qed
qed

lemma segment_sublist: "x \<in> set (split_sep p) \<Longrightarrow> str_includes p x"
  using split_sep_acc_sublist [of x "[]" p]
  by (simp add: split_sep_def str_includes_sublist)

lemma isAbsolute_startsWith: "isAbsolute p \<longleftrightarrow> startsWith p ''/''"
  by (cases p) (auto simp: isAbsolute_def startsWith_def)

lemma readFileFromRoot_no_root:
  "read_root e a rootId = None \<Longrightarrow> \<exists>err. readFileFromRoot e a rootId relPath mb = Inl err"
  by (auto simp: read_root_def readFileFromRoot_def split: sum.splits option.splits prod.splits)

lemma readFileFromRoot_root:
  assumes "read_root e a rootId = Some (cfg, rt)"
  shows "readFileFromRoot e a rootId relPath mb =
     (if \<not> r_exists rt then Inl (RootDoesNotExist (r_id rt) (r_path rt))
      else if str_trim relPath = [] \<or> startsWith (str_trim relPath) ''/''
              \<or> str_includes (str_trim relPath) ''..'' then Inl UnsafeRelPath
      else if \<not> isWithinRoot e (r_path rt) (read_absPath rt relPath) then Inl PathEscapesRoot
      else
        (case fs_realpath e (read_absPath rt relPath) of
           None \<Rightarrow> Inl FileNotFound
         | Some absReal \<Rightarrow>
             if absReal = [] then Inl FileNotFound
             else if \<not> isWithinRoot e (read_rootReal e rt) absReal then Inl PathEscapesRootSymlink
             else if \<not> cfg_followSymlinks cfg \<and> absReal \<noteq> read_expectedReal e rt relPath
             then Inl SymlinksNotAllowed
             else if shouldExclude (read_absPath rt relPath) (cfg_exclude cfg) (r_exclude rt)
             then Inl ExcludedByPolicy
             else
               (case fs_stat e (read_absPath rt relPath) of
                  None \<Rightarrow> Inl FileNotFound
                | Some s \<Rightarrow>
                    if st_kind s \<noteq> SFile then Inl NotAFile
                    else
                      (case fs_readFile e (read_absPath rt relPath) of
                         None \<Rightarrow> Inl ReadFailed
                       | Some buf \<Rightarrow>
                           Inr \<lparr> rd_rootId = r_id rt,
                                 rd_absPath = read_absPath rt relPath,
                                 rd_relPath = str_trim relPath,
                                 rd_truncated =
                                   (real (st_size s) > number_or mb (cfg_maxFileBytes cfg)),
                                 rd_text =
                                   utf8 e
                                     (if real (st_size s) > number_or mb (cfg_maxFileBytes cfg)
                                      then take (nat \<lfloor>number_or mb (cfg_maxFileBytes cfg)\<rfloor>) buf
                                      else buf) \<rparr>))))"
proof -
  from assms obtain roots where r: "resolveRoots e a = Inr (cfg, roots)"
    and f: "find (\<lambda>r. r_id r = rootId) roots = Some rt"
    by (auto simp: read_root_def split: sum.splits)
  show ?thesis
    unfolding readFileFromRoot_def read_absPath_def read_rootReal_def read_expectedReal_def
      Let_def
    by (simp only: r f sum.case prod.case option.case)
qed

lemma read_success_facts:
  assumes rr: "read_root e a rootId = Some (cfg, rt)"
    and ok: "readFileFromRoot e a rootId relPath mb = Inr res"
  shows "r_exists rt \<and> str_trim relPath \<noteq> [] \<and> \<not> startsWith (str_trim relPath) ''/''
       \<and> \<not> str_includes (str_trim relPath) ''..''
       \<and> isWithinRoot e (r_path rt) (read_absPath rt relPath)
       \<and> (\<exists>absReal. fs_realpath e (read_absPath rt relPath) = Some absReal \<and> absReal \<noteq> []
             \<and> isWithinRoot e (read_rootReal e rt) absReal
             \<and> (cfg_followSymlinks cfg \<or> absReal = read_expectedReal e rt relPath))
       \<and> \<not> shouldExclude (read_absPath rt relPath) (cfg_exclude cfg) (r_exclude rt)
       \<and> (\<exists>s. fs_stat e (read_absPath rt relPath) = Some s \<and> st_kind s = SFile)
       \<and> (\<exists>buf. fs_readFile e (read_absPath rt relPath) = Some buf)"
  using ok unfolding readFileFromRoot_root [OF rr]
  by (simp split: if_splits option.splits)

lemma read_success:
  assumes rr: "read_root e a rootId = Some (cfg, rt)"
    and "r_exists rt" "str_trim relPath \<noteq> []" "\<not> startsWith (str_trim relPath) ''/''"
    "\<not> str_includes (str_trim relPath) ''..''"
    "isWithinRoot e (r_path rt) (read_absPath rt relPath)"
    "fs_realpath e (read_absPath rt relPath) = Some absReal" "absReal \<noteq> []"
    "isWithinRoot e (read_rootReal e rt) absReal"
    "cfg_followSymlinks cfg \<or> absReal = read_expectedReal e rt relPath"
    "\<not> shouldExclude (read_absPath rt relPath) (cfg_exclude cfg) (r_exclude rt)"
    "fs_stat e (read_absPath rt relPath) = Some s" "st_kind s = SFile"
    "fs_readFile e (read_absPath rt relPath) = Some buf"
  shows "readFileFromRoot e a rootId relPath mb =
           Inr \<lparr> rd_rootId = r_id rt,
                 rd_absPath = read_absPath rt relPath,
                 rd_relPath = str_trim relPath,
                 rd_truncated = (real (st_size s) > number_or mb (cfg_maxFileBytes cfg)),
                 rd_text =
                   utf8 e (if real (st_size s) > number_or mb (cfg_maxFileBytes cfg)
                           then take (nat \<lfloor>number_or mb (cfg_maxFileBytes cfg)\<rfloor>) buf
                           else buf) \<rparr>"
  unfolding readFileFromRoot_root [OF rr] using assms(2-) by simp

lemma read_root_resolve:
  "read_root e a rootId = Some (cfg, rt) \<Longrightarrow>
   \<exists>roots. resolveRoots e a = Inr (cfg, roots) \<and> find (\<lambda>r. r_id r = rootId) roots = Some rt"
  by (auto simp: read_root_def split: sum.splits)

lemma read_returns:
  assumes rr: "read_root e a rootId = Some (cfg, rt)"
    and ns: "\<not> spec_read_fails e a rootId relPath"
    and na: "\<not> read_also_refused e a rootId relPath"
  shows "\<exists>s buf. fs_stat e (read_absPath rt relPath) = Some s
           \<and> fs_readFile e (read_absPath rt relPath) = Some buf
           \<and> readFileFromRoot e a rootId relPath mb =
               Inr \<lparr> rd_rootId = r_id rt,
                     rd_absPath = read_absPath rt relPath,
                     rd_relPath = str_trim relPath,
                     rd_truncated = (real (st_size s) > number_or mb (cfg_maxFileBytes cfg)),
                     rd_text =
                       utf8 e (if real (st_size s) > number_or mb (cfg_maxFileBytes cfg)
                               then take (nat \<lfloor>number_or mb (cfg_maxFileBytes cfg)\<rfloor>) buf
                               else buf) \<rparr>"
proof -
  let ?abs = "read_absPath rt relPath"
  let ?rel = "str_trim relPath"
  from ns have 1: "r_exists rt" "?rel \<noteq> []" "\<not> isAbsolute ?rel"
    "isWithinRoot e (r_path rt) ?abs"
    "\<not> shouldExclude ?abs (cfg_exclude cfg) (r_exclude rt)"
    by (simp_all add: spec_read_fails_def rr)
  from ns obtain absReal where 2: "fs_realpath e ?abs = Some absReal" "absReal \<noteq> []"
    "isWithinRoot e (read_rootReal e rt) absReal"
    by (cases "fs_realpath e ?abs") (simp_all add: spec_read_fails_def rr)
  from ns obtain s where 3: "fs_stat e ?abs = Some s" "st_kind s = SFile"
    by (cases "fs_stat e ?abs") (simp_all add: spec_read_fails_def rr)
  from na have 4: "\<not> str_includes ?rel ''..''"
    "cfg_followSymlinks cfg \<or> fs_realpath e ?abs = Some (read_expectedReal e rt relPath)"
    by (simp_all add: read_also_refused_def rr)
  from na obtain buf where 5: "fs_readFile e ?abs = Some buf"
    by (cases "fs_readFile e ?abs") (simp_all add: read_also_refused_def rr)
  have 6: "cfg_followSymlinks cfg \<or> absReal = read_expectedReal e rt relPath"
    using 4(2) 2(1) by auto
  have 7: "\<not> startsWith ?rel ''/''" using 1(3) by (simp add: isAbsolute_startsWith)
  from read_success [OF rr 1(1) 1(2) 7 4(1) 1(4) 2(1) 2(2) 2(3) 6 1(5) 3(1) 3(2) 5, of mb]
  show ?thesis using 3(1) 5 by blast
qed

text \<open>
  Claim C3, as the code has it.  The read raises exactly when one of the conditions the
  specification lists holds (\<open>spec_read_fails\<close>) or one of three more
  (\<open>read_also_refused\<close>): the trimmed path has \<open>..\<close> anywhere, links are not to be followed
  and the real path of the target is not the expected one, or the bytes of the file cannot be
  read.  On every other input it returns the decoded bytes of the file, cut to the byte
  limit when the file is larger.
\<close>

theorem read_fails_iff:
  "((\<exists>err. readFileFromRoot e a rootId relPath mb = Inl err) \<longleftrightarrow>
      spec_read_fails e a rootId relPath \<or> read_also_refused e a rootId relPath)
   \<and> (\<not> spec_read_fails e a rootId relPath \<and> \<not> read_also_refused e a rootId relPath \<longrightarrow>
        (\<exists>cfg rt s buf.
           read_root e a rootId = Some (cfg, rt)
           \<and> fs_stat e (read_absPath rt relPath) = Some s
           \<and> fs_readFile e (read_absPath rt relPath) = Some buf
           \<and> readFileFromRoot e a rootId relPath mb =
               Inr \<lparr> rd_rootId = r_id rt,
                     rd_absPath = read_absPath rt relPath,
                     rd_relPath = str_trim relPath,
                     rd_truncated = (real (st_size s) > number_or mb (cfg_maxFileBytes cfg)),
                     rd_text =
                       utf8 e (if real (st_size s) > number_or mb (cfg_maxFileBytes cfg)
                               then take (nat \<lfloor>number_or mb (cfg_maxFileBytes cfg)\<rfloor>) buf
                               else buf) \<rparr>))"
proof (cases "read_root e a rootId")
  case None
  have sp: "spec_read_fails e a rootId relPath" by (simp add: spec_read_fails_def None)
  have fl: "\<exists>err. readFileFromRoot e a rootId relPath mb = Inl err"
    by (rule readFileFromRoot_no_root [OF None])
  show ?thesis
  proof (intro conjI impI)
    show "(\<exists>err. readFileFromRoot e a rootId relPath mb = Inl err) \<longleftrightarrow>
      spec_read_fails e a rootId relPath \<or> read_also_refused e a rootId relPath"
      using sp fl by simp
  next
    assume "\<not> spec_read_fails e a rootId relPath \<and> \<not> read_also_refused e a rootId relPath"
    with sp have False by simp
    then show "\<exists>cfg rt s buf.
           read_root e a rootId = Some (cfg, rt)
           \<and> fs_stat e (read_absPath rt relPath) = Some s
           \<and> fs_readFile e (read_absPath rt relPath) = Some buf
           \<and> readFileFromRoot e a rootId relPath mb =
               Inr \<lparr> rd_rootId = r_id rt,
                     rd_absPath = read_absPath rt relPath,
                     rd_relPath = str_trim relPath,
                     rd_truncated = (real (st_size s) > number_or mb (cfg_maxFileBytes cfg)),
                     rd_text =
                       utf8 e (if real (st_size s) > number_or mb (cfg_maxFileBytes cfg)
                               then take (nat \<lfloor>number_or mb (cfg_maxFileBytes cfg)\<rfloor>) buf
                               else buf) \<rparr>"
      by (rule FalseE)
  qed
next
  case (Some p)
  obtain cfg rt where p: "p = (cfg, rt)" by (cases p)
  note rr = Some [unfolded p]
  let ?abs = "read_absPath rt relPath"
  let ?rel = "str_trim relPath"
  have B: "\<exists>s buf. fs_stat e ?abs = Some s \<and> fs_readFile e ?abs = Some buf
           \<and> readFileFromRoot e a rootId relPath mb =
               Inr \<lparr> rd_rootId = r_id rt,
                     rd_absPath = ?abs,
                     rd_relPath = ?rel,
                     rd_truncated = (real (st_size s) > number_or mb (cfg_maxFileBytes cfg)),
                     rd_text =
                       utf8 e (if real (st_size s) > number_or mb (cfg_maxFileBytes cfg)
                               then take (nat \<lfloor>number_or mb (cfg_maxFileBytes cfg)\<rfloor>) buf
                               else buf) \<rparr>"
    if ns: "\<not> spec_read_fails e a rootId relPath" and na: "\<not> read_also_refused e a rootId relPath"
    by (rule read_returns [OF rr ns na])
  have A1: "spec_read_fails e a rootId relPath \<or> read_also_refused e a rootId relPath"
    if "readFileFromRoot e a rootId relPath mb = Inl err" for err
  proof (rule ccontr)
    assume "\<not> ?thesis"
    then have "\<not> spec_read_fails e a rootId relPath" "\<not> read_also_refused e a rootId relPath"
      by simp_all
    from B [OF this] that show False by auto
  qed
  have A2: "\<exists>err. readFileFromRoot e a rootId relPath mb = Inl err"
    if f: "spec_read_fails e a rootId relPath \<or> read_also_refused e a rootId relPath"
  proof (cases "readFileFromRoot e a rootId relPath mb")
    case (Inl err)
    then show ?thesis by blast
  next
    case (Inr res)
    from read_success_facts [OF rr Inr] obtain absReal s buf where
      f1: "r_exists rt" "?rel \<noteq> []" "\<not> startsWith ?rel ''/''" "\<not> str_includes ?rel ''..''"
        "isWithinRoot e (r_path rt) ?abs"
        "\<not> shouldExclude ?abs (cfg_exclude cfg) (r_exclude rt)"
      and f2: "fs_realpath e ?abs = Some absReal" "absReal \<noteq> []"
        "isWithinRoot e (read_rootReal e rt) absReal"
        "cfg_followSymlinks cfg \<or> absReal = read_expectedReal e rt relPath"
      and f3: "fs_stat e ?abs = Some s" "st_kind s = SFile"
      and f4: "fs_readFile e ?abs = Some buf"
      by blast
    have nseg: "''..'' \<notin> set (split_sep ?rel)"
      using f1(4) segment_sublist [of "''..''" ?rel] by blast
    have nabs: "\<not> isAbsolute ?rel" using f1(3) by (simp add: isAbsolute_startsWith)
    have "\<not> spec_read_fails e a rootId relPath"
      unfolding spec_read_fails_def rr using f1 f2 f3 nseg nabs by simp
    moreover have "\<not> read_also_refused e a rootId relPath"
      unfolding read_also_refused_def rr using f1 f2 f4 by auto
    ultimately show ?thesis using f by blast
  qed
  show ?thesis
  proof (intro conjI impI)
    show "(\<exists>err. readFileFromRoot e a rootId relPath mb = Inl err) \<longleftrightarrow>
      spec_read_fails e a rootId relPath \<or> read_also_refused e a rootId relPath"
      using A1 A2 by blast
  next
    assume "\<not> spec_read_fails e a rootId relPath \<and> \<not> read_also_refused e a rootId relPath"
    then have "\<not> spec_read_fails e a rootId relPath" "\<not> read_also_refused e a rootId relPath"
      by simp_all
    from B [OF this] obtain s buf where
      "fs_stat e ?abs = Some s" "fs_readFile e ?abs = Some buf"
      "readFileFromRoot e a rootId relPath mb =
               Inr \<lparr> rd_rootId = r_id rt,
                     rd_absPath = ?abs,
                     rd_relPath = ?rel,
                     rd_truncated = (real (st_size s) > number_or mb (cfg_maxFileBytes cfg)),
                     rd_text =
                       utf8 e (if real (st_size s) > number_or mb (cfg_maxFileBytes cfg)
                               then take (nat \<lfloor>number_or mb (cfg_maxFileBytes cfg)\<rfloor>) buf
                               else buf) \<rparr>"
      by blast
    with rr show "\<exists>cfg rt s buf.
           read_root e a rootId = Some (cfg, rt)
           \<and> fs_stat e (read_absPath rt relPath) = Some s
           \<and> fs_readFile e (read_absPath rt relPath) = Some buf
           \<and> readFileFromRoot e a rootId relPath mb =
               Inr \<lparr> rd_rootId = r_id rt,
                     rd_absPath = read_absPath rt relPath,
                     rd_relPath = str_trim relPath,
                     rd_truncated = (real (st_size s) > number_or mb (cfg_maxFileBytes cfg)),
                     rd_text =
                       utf8 e (if real (st_size s) > number_or mb (cfg_maxFileBytes cfg)
                               then take (nat \<lfloor>number_or mb (cfg_maxFileBytes cfg)\<rfloor>) buf
                               else buf) \<rparr>"
      by (intro exI conjI)
  qed
qed

theorem read_fails_iff_witness:
  "\<not> spec_read_fails demo_env demo_api ''unity'' ''Audio.cs''
   \<and> \<not> read_also_refused demo_env demo_api ''unity'' ''Audio.cs''
   \<and> (\<exists>res. readFileFromRoot demo_env demo_api ''unity'' ''Audio.cs'' None = Inr res)
   \<and> read_also_refused demo_env demo_api ''unity'' ''link.cs''
   \<and> (\<exists>err. readFileFromRoot demo_env demo_api ''unity'' ''link.cs'' None = Inl err)"
proof -
  have 1: "\<not> spec_read_fails demo_env demo_api ''unity'' ''Audio.cs''" by code_simp
  have 2: "\<not> read_also_refused demo_env demo_api ''unity'' ''Audio.cs''" by code_simp
  have 3: "\<exists>res. readFileFromRoot demo_env demo_api ''unity'' ''Audio.cs'' None = Inr res"
    using read_fails_iff [of demo_env demo_api "''unity''" "''Audio.cs''" None] 1 2 by blast
  have 4: "read_also_refused demo_env demo_api ''unity'' ''link.cs''" by code_simp
  have 5: "\<exists>err. readFileFromRoot demo_env demo_api ''unity'' ''link.cs'' None = Inl err"
    using read_fails_iff [of demo_env demo_api "''unity''" "''link.cs''" None] 4 by blast
  from 1 2 3 4 5 show ?thesis by blast
qed

text \<open>
  The claim as worded fails for a regular file inside its root whose name has two dots in a
  row: no listed condition holds, yet the read raises.
\<close>

theorem read_dotdot_name_counterexample:
  "readFileFromRoot demo_env demo_api ''requirements'' ''notes..md'' None = Inl UnsafeRelPath
   \<and> \<not> spec_read_fails demo_env demo_api ''requirements'' ''notes..md''"
  by code_simp

text \<open>
  Claim C10.  A relative path whose trimmed value has \<open>..\<close> anywhere is never read: the
  call raises, and once the root id is known and the root exists what it raises is the
  error for an unsafe relative path (before that, the error of the root check that fails).
\<close>

theorem read_rejects_dotdot:
  assumes "str_includes (str_trim relPath) ''..''"
  shows "(\<exists>err. readFileFromRoot e a rootId relPath maxBytes = Inl err)
       \<and> (\<forall>cfg rt. read_root e a rootId = Some (cfg, rt) \<and> r_exists rt \<longrightarrow>
             readFileFromRoot e a rootId relPath maxBytes = Inl UnsafeRelPath)"
  using assms
  by (auto simp: readFileFromRoot_def read_root_def Let_def split: sum.splits option.splits prod.splits)

theorem read_rejects_dotdot_witness:
  "str_includes (str_trim ''notes..md'') ''..''
   \<and> readFileFromRoot demo_env demo_api ''requirements'' '' notes..md'' None = Inl UnsafeRelPath"
proof -
  have h: "str_includes (str_trim '' notes..md'') ''..''" by code_simp
  have h0: "str_includes (str_trim ''notes..md'') ''..''" by code_simp
  have "case read_root demo_env demo_api ''requirements'' of
          None \<Rightarrow> False | Some (cfg, rt) \<Rightarrow> r_exists rt"
    by code_simp
  then obtain cfg rt where "read_root demo_env demo_api ''requirements'' = Some (cfg, rt)" "r_exists rt"
    by (auto split: option.splits)
  with read_rejects_dotdot [OF h, of demo_env demo_api "''requirements''" None] h0 show ?thesis by blast
qed

section \<open>The event heuristic\<close>

lemma has_hits_catch: "has_hits (catch_null r) \<longleftrightarrow> (\<exists>res. r = Inr res \<and> hits res \<noteq> [])"
  by (cases r) (auto simp: has_hits_def catch_null_def)

text \<open>
  Claim C7, as the code has it.  A blank event name (empty or white space only) and a missing
  one raise \<open>eventName required\<close>, and no search is run.  For an event name that is not
  blank after trimming, once the four searches have settled the tool returns a result (it
  does not raise): the searches are the plain substring search for the event name in the
  root \<open>requirements\<close>, the one for \<open>Name=\<close> followed by the event name in double quotes in the root \<open>wwise\<close>, the one for the
  event name in the root \<open>unity\<close> and the one for the event name in all roots; each of the
  four raw results is the result of its search, absent when that search raised; the
  unscoped search is run whatever the scoped ones found (the tool does not return before it
  has settled); and each derived flag is true exactly when its scoped search returned at
  least one hit.
\<close>

theorem check_event_branches:
  "(str_trim eventName = [] \<longrightarrow>
      audio_check_event e a fuel (Some eventName) = Some (Inl EventNameRequired))
   \<and> audio_check_event e a fuel None = Some (Inl EventNameRequired)
   \<and> (str_trim eventName \<noteq> []
       \<and> searchAcrossRoots e a fuel
            \<lparr> sp_query = eventName, sp_rootIds = Some [''requirements''], sp_regex = None,
              sp_caseSensitive = None, sp_maxHits = None \<rparr> = Some r1
       \<and> searchAcrossRoots e a fuel
            \<lparr> sp_query = ''Name='' @ [CHR 0x22] @ eventName @ [CHR 0x22],
              sp_rootIds = Some [''wwise''], sp_regex = None, sp_caseSensitive = None,
              sp_maxHits = None \<rparr> = Some r2
       \<and> searchAcrossRoots e a fuel
            \<lparr> sp_query = eventName, sp_rootIds = Some [''unity''], sp_regex = None,
              sp_caseSensitive = None, sp_maxHits = None \<rparr> = Some r3
       \<and> searchAcrossRoots e a fuel
            \<lparr> sp_query = eventName, sp_rootIds = None, sp_regex = None,
              sp_caseSensitive = None, sp_maxHits = None \<rparr> = Some r4
       \<longrightarrow>
       audio_check_event e a fuel (Some eventName)
         = Some (Inr \<lparr> ck_eventName = eventName,
                        ck_requirements = catch_null r1,
                        ck_wwiseNameAttr = catch_null r2,
                        ck_unityRefs = catch_null r3,
                        ck_fallback = catch_null r4,
                        ck_requirementsMentioned = (\<exists>sr. r1 = Inr sr \<and> hits sr \<noteq> []),
                        ck_wwiseProbablyDefined = (\<exists>sr. r2 = Inr sr \<and> hits sr \<noteq> []),
                        ck_unityReferenced = (\<exists>sr. r3 = Inr sr \<and> hits sr \<noteq> []) \<rparr>))
   \<and> (str_trim eventName \<noteq> []
       \<and> searchAcrossRoots e a fuel
            \<lparr> sp_query = eventName, sp_rootIds = None, sp_regex = None,
              sp_caseSensitive = None, sp_maxHits = None \<rparr> = None
       \<longrightarrow> audio_check_event e a fuel (Some eventName) = None)
   \<and> (\<forall>err. catch_null (Inl err :: error + SearchResult) = None)
   \<and> (\<forall>sr. catch_null (Inr sr :: error + SearchResult) = Some sr)"
proof (intro conjI impI allI)
  assume "str_trim eventName = []"
  then show "audio_check_event e a fuel (Some eventName) = Some (Inl EventNameRequired)"
    by (simp add: audio_check_event_def)
next
  show "audio_check_event e a fuel None = Some (Inl EventNameRequired)"
    by (simp add: audio_check_event_def str_trim_def)
next
  assume h: "str_trim eventName \<noteq> []
       \<and> searchAcrossRoots e a fuel
            \<lparr> sp_query = eventName, sp_rootIds = Some [''requirements''], sp_regex = None,
              sp_caseSensitive = None, sp_maxHits = None \<rparr> = Some r1
       \<and> searchAcrossRoots e a fuel
            \<lparr> sp_query = ''Name='' @ [CHR 0x22] @ eventName @ [CHR 0x22],
              sp_rootIds = Some [''wwise''], sp_regex = None, sp_caseSensitive = None,
              sp_maxHits = None \<rparr> = Some r2
       \<and> searchAcrossRoots e a fuel
            \<lparr> sp_query = eventName, sp_rootIds = Some [''unity''], sp_regex = None,
              sp_caseSensitive = None, sp_maxHits = None \<rparr> = Some r3
       \<and> searchAcrossRoots e a fuel
            \<lparr> sp_query = eventName, sp_rootIds = None, sp_regex = None,
              sp_caseSensitive = None, sp_maxHits = None \<rparr> = Some r4"
  then show "audio_check_event e a fuel (Some eventName)
         = Some (Inr \<lparr> ck_eventName = eventName,
                        ck_requirements = catch_null r1,
                        ck_wwiseNameAttr = catch_null r2,
                        ck_unityRefs = catch_null r3,
                        ck_fallback = catch_null r4,
                        ck_requirementsMentioned = (\<exists>sr. r1 = Inr sr \<and> hits sr \<noteq> []),
                        ck_wwiseProbablyDefined = (\<exists>sr. r2 = Inr sr \<and> hits sr \<noteq> []),
                        ck_unityReferenced = (\<exists>sr. r3 = Inr sr \<and> hits sr \<noteq> []) \<rparr>)"
    by (simp add: audio_check_event_def plain_search_def Let_def has_hits_catch)
next
  assume "str_trim eventName \<noteq> []
       \<and> searchAcrossRoots e a fuel
            \<lparr> sp_query = eventName, sp_rootIds = None, sp_regex = None,
              sp_caseSensitive = None, sp_maxHits = None \<rparr> = None"
  then show "audio_check_event e a fuel (Some eventName) = None"
    by (simp add: audio_check_event_def plain_search_def split: option.splits)
next
  fix err show "catch_null (Inl err :: error + SearchResult) = None"
    by (simp add: catch_null_def)
next
  fix sr show "catch_null (Inr sr :: error + SearchResult) = Some sr"
    by (simp add: catch_null_def)
qed

theorem check_event_branches_witness:
  "(\<exists>res. audio_check_event demo_env demo_api 1 (Some ''UI_Draw'') = Some (Inr res)
         \<and> ck_requirementsMentioned res \<and> ck_wwiseProbablyDefined res \<and> ck_unityReferenced res
         \<and> ck_fallback res \<noteq> None)
   \<and> audio_check_event demo_env \<lparr>pluginConfig = None, workspace = None\<rparr> 0 (Some ''UI_Draw'')
       = Some (Inr \<lparr> ck_eventName = ''UI_Draw'', ck_requirements = None, ck_wwiseNameAttr = None,
                      ck_unityRefs = None, ck_fallback = None, ck_requirementsMentioned = False,
                      ck_wwiseProbablyDefined = False, ck_unityReferenced = False \<rparr>)
   \<and> audio_check_event demo_env demo_api 1 (Some [CHR 0x09, CHR '' '']) = Some (Inl EventNameRequired)
   \<and> audio_check_event demo_env demo_api 0 (Some ''UI_Draw'') = None"
proof -
  let ?q2 = "''Name='' @ [CHR 0x22] @ ''UI_Draw'' @ [CHR 0x22]"
  let ?p1 = "\<lparr> sp_query = ''UI_Draw'', sp_rootIds = Some [''requirements''], sp_regex = None,
              sp_caseSensitive = None, sp_maxHits = None \<rparr>"
  let ?p2 = "\<lparr> sp_query = ?q2, sp_rootIds = Some [''wwise''], sp_regex = None,
              sp_caseSensitive = None, sp_maxHits = None \<rparr>"
  let ?p3 = "\<lparr> sp_query = ''UI_Draw'', sp_rootIds = Some [''unity''], sp_regex = None,
              sp_caseSensitive = None, sp_maxHits = None \<rparr>"
  let ?p4 = "\<lparr> sp_query = ''UI_Draw'', sp_rootIds = None, sp_regex = None,
              sp_caseSensitive = None, sp_maxHits = None \<rparr>"
  let ?none = "\<lparr>pluginConfig = None, workspace = None\<rparr>"
  have t: "str_trim ''UI_Draw'' \<noteq> []" by code_simp
  have h1: "case searchAcrossRoots demo_env demo_api 1 ?p1 of
              Some (Inr sr) \<Rightarrow> hits sr \<noteq> [] | _ \<Rightarrow> False" by code_simp
  have h2: "case searchAcrossRoots demo_env demo_api 1 ?p2 of
              Some (Inr sr) \<Rightarrow> hits sr \<noteq> [] | _ \<Rightarrow> False" by code_simp
  have h3: "case searchAcrossRoots demo_env demo_api 1 ?p3 of
              Some (Inr sr) \<Rightarrow> hits sr \<noteq> [] | _ \<Rightarrow> False" by code_simp
  have h4: "case searchAcrossRoots demo_env demo_api 1 ?p4 of
              Some (Inr sr) \<Rightarrow> True | _ \<Rightarrow> False" by code_simp
  from h1 obtain s1 where r1: "searchAcrossRoots demo_env demo_api 1 ?p1 = Some (Inr s1)" "hits s1 \<noteq> []"
    by (auto split: option.splits sum.splits)
  from h2 obtain s2 where r2: "searchAcrossRoots demo_env demo_api 1 ?p2 = Some (Inr s2)" "hits s2 \<noteq> []"
    by (auto split: option.splits sum.splits)
  from h3 obtain s3 where r3: "searchAcrossRoots demo_env demo_api 1 ?p3 = Some (Inr s3)" "hits s3 \<noteq> []"
    by (auto split: option.splits sum.splits)
  from h4 obtain s4 where r4: "searchAcrossRoots demo_env demo_api 1 ?p4 = Some (Inr s4)"
    by (auto split: option.splits sum.splits)
  note ok = check_event_branches [where eventName = "''UI_Draw''" and e = demo_env and a = demo_api
      and fuel = 1 and ?r1.0 = "Inr s1" and ?r2.0 = "Inr s2" and ?r3.0 = "Inr s3" and ?r4.0 = "Inr s4",
      THEN conjunct2, THEN conjunct2, THEN conjunct1]
  have A: "audio_check_event demo_env demo_api 1 (Some ''UI_Draw'')
         = Some (Inr \<lparr> ck_eventName = ''UI_Draw'',
                        ck_requirements = catch_null (Inr s1),
                        ck_wwiseNameAttr = catch_null (Inr s2),
                        ck_unityRefs = catch_null (Inr s3),
                        ck_fallback = catch_null (Inr s4),
                        ck_requirementsMentioned = (\<exists>sr. (Inr s1 :: error + SearchResult) = Inr sr \<and> hits sr \<noteq> []),
                        ck_wwiseProbablyDefined = (\<exists>sr. (Inr s2 :: error + SearchResult) = Inr sr \<and> hits sr \<noteq> []),
                        ck_unityReferenced = (\<exists>sr. (Inr s3 :: error + SearchResult) = Inr sr \<and> hits sr \<noteq> []) \<rparr>)"
    using ok t r1(1) r2(1) r3(1) r4 by blast
  have A': "\<exists>res. audio_check_event demo_env demo_api 1 (Some ''UI_Draw'') = Some (Inr res)
         \<and> ck_requirementsMentioned res \<and> ck_wwiseProbablyDefined res \<and> ck_unityReferenced res
         \<and> ck_fallback res \<noteq> None"
    unfolding A using r1(2) r2(2) r3(2) by (simp add: catch_null_def)
  have m: "searchAcrossRoots demo_env ?none 0 p = Some (Inl Misconfigured)" for p :: SearchParams
    by (simp add: searchAcrossRoots_def resolveRoots_def getPluginCfg_def)
  note bad = check_event_branches [where eventName = "''UI_Draw''" and e = demo_env and a = ?none
      and fuel = 0 and ?r1.0 = "Inl Misconfigured" and ?r2.0 = "Inl Misconfigured"
      and ?r3.0 = "Inl Misconfigured" and ?r4.0 = "Inl Misconfigured",
      THEN conjunct2, THEN conjunct2, THEN conjunct1]
  have B: "audio_check_event demo_env ?none 0 (Some ''UI_Draw'')
       = Some (Inr \<lparr> ck_eventName = ''UI_Draw'', ck_requirements = None, ck_wwiseNameAttr = None,
                      ck_unityRefs = None, ck_fallback = None, ck_requirementsMentioned = False,
                      ck_wwiseProbablyDefined = False, ck_unityReferenced = False \<rparr>)"
    using bad t m by (simp add: catch_null_def)
  have bl: "str_trim [CHR 0x09, CHR '' ''] = []" by code_simp
  have C: "audio_check_event demo_env demo_api 1 (Some [CHR 0x09, CHR '' '']) = Some (Inl EventNameRequired)"
    using check_event_branches [where eventName = "[CHR 0x09, CHR '' '']" and e = demo_env
        and a = demo_api and fuel = 1, THEN conjunct1] bl
    by blast
  have out: "searchAcrossRoots demo_env demo_api 0 ?p4 = None" by code_simp
  have D: "audio_check_event demo_env demo_api 0 (Some ''UI_Draw'') = None"
    using check_event_branches [where eventName = "''UI_Draw''" and e = demo_env and a = demo_api
        and fuel = 0, THEN conjunct2, THEN conjunct2, THEN conjunct2, THEN conjunct1] t out
    by blast
  from A' B C D show ?thesis by (intro conjI)
qed

text \<open>
  The claim as worded fails for an event name that is not empty but blank: for the name of
  one space the tool raises \<open>eventName required\<close>.
\<close>

theorem blank_event_name_counterexample:
  "'' '' \<noteq> [] \<and> audio_check_event demo_env demo_api 1 (Some '' '') = Some (Inl EventNameRequired)"
  by code_simp

section \<open>Invariants of the walk and of the search loops\<close>

lemma walk_entry_action:
  "walk_entry e params body rootReal dir ent st =
     (case entry_action e params rootReal dir ent of
        Skip \<Rightarrow> Continue st
      | Push full \<Rightarrow> Continue (full # fst st, snd st)
      | Yield full \<Rightarrow>
          (case body full (snd st) of
             Return r \<Rightarrow> Return r
           | Continue s' \<Rightarrow> Continue (fst st, s')))"
  by (simp add: walk_entry_def entry_action_def Let_def split: option.splits)

lemma walk_entries_inv:
  assumes body: "\<And>p s. Py p \<Longrightarrow> I s \<Longrightarrow> (case body p s of Return r \<Rightarrow> R r | Continue s' \<Rightarrow> I s')"
    and act: "\<And>ent. ent \<in> set ents \<Longrightarrow>
                (case entry_action e params rr dir ent of Skip \<Rightarrow> True | Push d \<Rightarrow> Pd d | Yield p \<Rightarrow> Py p)"
    and st: "\<forall>d \<in> set (fst st). Pd d" "I (snd st)"
  shows "case walk_entries e params body rr dir ents st of
           Return r \<Rightarrow> R r
         | Continue st' \<Rightarrow> (\<forall>d \<in> set (fst st'). Pd d) \<and> I (snd st')"
  using act st
proof (induction ents arbitrary: st)
  case Nil
  then show ?case by simp
next
  case (Cons ent ents)
  have a: "case entry_action e params rr dir ent of Skip \<Rightarrow> True | Push d \<Rightarrow> Pd d | Yield p \<Rightarrow> Py p"
    using Cons.prems(1) by simp
  show ?case
  proof (cases "entry_action e params rr dir ent")
    case Skip
    then show ?thesis using Cons by (simp add: walk_entry_action)
  next
    case (Push d)
    with a have "Pd d" by simp
    then show ?thesis using Cons Push by (simp add: walk_entry_action)
  next
    case (Yield p)
    with a have py: "Py p" by simp
    show ?thesis
    proof (cases "body p (snd st)")
      case (Return r)
      with body [OF py Cons.prems(3)] have "R r" by simp
      then show ?thesis using Yield Return by (simp add: walk_entry_action)
    next
      case (Continue s')
      with body [OF py Cons.prems(3)] have "I s'" by simp
      then show ?thesis using Yield Continue Cons by (simp add: walk_entry_action)
    qed
  qed
qed

lemma walk_loop_inv:
  assumes body: "\<And>p s. Py p \<Longrightarrow> I s \<Longrightarrow> (case body p s of Return r \<Rightarrow> R r | Continue s' \<Rightarrow> I s')"
    and act: "\<And>dir ents ent. Pd dir \<Longrightarrow> fs_readdir e dir = Some ents \<Longrightarrow> ent \<in> set ents \<Longrightarrow>
                (case entry_action e params rr dir ent of Skip \<Rightarrow> True | Push d \<Rightarrow> Pd d | Yield p \<Rightarrow> Py p)"
    and st: "\<forall>d \<in> set stack. Pd d" "I s"
  shows "case walk_loop e params body rr fuel stack s of
           None \<Rightarrow> True
         | Some (Return r) \<Rightarrow> R r
         | Some (Continue s') \<Rightarrow> I s'"
  using st
proof (induction fuel arbitrary: stack s)
  case 0
  then show ?case by (cases stack) simp_all
next
  case (Suc fuel)
  show ?case
  proof (cases stack)
    case Nil
    then show ?thesis using Suc.prems by simp
  next
    case (Cons dir stack')
    have pd: "Pd dir" and rest: "\<forall>d \<in> set stack'. Pd d" using Suc.prems Cons by simp_all
    show ?thesis
    proof (cases "dir = [] \<or> fs_readdir e dir = None")
      case True
      then show ?thesis using Cons Suc.IH [OF rest Suc.prems(2)] by auto
    next
      case False
      then obtain ents where rd: "fs_readdir e dir = Some ents" and ne: "dir \<noteq> []" by auto
      have "case walk_entries e params body rr dir ents (stack', s) of
              Return r \<Rightarrow> R r
            | Continue st' \<Rightarrow> (\<forall>d \<in> set (fst st'). Pd d) \<and> I (snd st')"
        by (rule walk_entries_inv [where Py = Py and Pd = Pd])
           (use body act [OF pd rd] rest Suc.prems in auto)
      then show ?thesis
        using Cons rd ne Suc.IH
        by (auto split: ctl.splits)
    qed
  qed
qed

lemma scan_lines_bound:
  assumes "real (length (hits (fst st))) < cap"
  shows "case scan_lines e m cap rt f ls i st of
           Return st' \<Rightarrow> cap \<le> real (length (hits (fst st'))) \<and> real (length (hits (fst st'))) < cap + 1
         | Continue st' \<Rightarrow> real (length (hits (fst st'))) < cap"
  using assms
proof (induction ls arbitrary: i st)
  case Nil
  then show ?case by simp
next
  case (Cons l ls)
  obtain ok li' where mt: "matcher_test m (snd st) l = (ok, li')" by (cases "matcher_test m (snd st) l")
  show ?case
  proof (cases ok)
    case False
    then show ?thesis using mt Cons.IH [of "(fst st, li')" "i + 1"] Cons.prems by simp
  next
    case True
    let ?res = "(fst st)\<lparr>hits := hits (fst st) @ [make_hit e rt f i l]\<rparr>"
    show ?thesis
    proof (cases "real (length (hits ?res)) \<ge> cap")
      case t: True
      then show ?thesis using mt True Cons.prems by (simp add: Let_def)
    next
      case False
      then have "real (length (hits (fst (?res, li')))) < cap" by simp
      from Cons.IH [OF this, of "i + 1"] show ?thesis using mt True False by (simp add: Let_def)
    qed
  qed
qed

lemma search_file_bound:
  assumes "real (length (hits (fst st))) < cap"
  shows "case search_file e cfg m cap rt f st of
           Return st' \<Rightarrow> cap \<le> real (length (hits (fst st'))) \<and> real (length (hits (fst st'))) < cap + 1
         | Continue st' \<Rightarrow> real (length (hits (fst st'))) < cap"
proof (cases "readTextFileLimited e f (cfg_maxFileBytes cfg)")
  case None
  then show ?thesis using assms by (simp add: search_file_def Let_def)
next
  case (Some content)
  have "real (length (hits (fst ((fst st)\<lparr>scannedFiles := scannedFiles (fst st) + 1\<rparr>, snd st)))) < cap"
    using assms by simp
  from scan_lines_bound [OF this] show ?thesis using Some assms
    by (simp add: search_file_def Let_def)
qed

lemma walkFiles_bound:
  assumes "real (length (hits (fst st))) < cap"
  shows "case walkFiles e params (search_file e cfg m cap rt) fuel st of
           None \<Rightarrow> True
         | Some (Return st') \<Rightarrow> cap \<le> real (length (hits (fst st'))) \<and> real (length (hits (fst st'))) < cap + 1
         | Some (Continue st') \<Rightarrow> real (length (hits (fst st'))) < cap"
  unfolding walkFiles_def Let_def
  by (rule walk_loop_inv [where Py = "\<lambda>_. True" and Pd = "\<lambda>_. True"
        and I = "\<lambda>st. real (length (hits (fst st))) < cap"])
     (use assms search_file_bound in \<open>auto split: action.splits\<close>)

lemma search_roots_bound:
  assumes "real (length (hits (fst st))) < cap" "search_roots e cfg m cap fuel roots st = Some st'"
  shows "real (length (hits (fst st'))) < cap + 1"
  using assms
proof (induction roots arbitrary: st)
  case Nil
  then show ?case by simp
next
  case (Cons rt roots)
  show ?case
  proof (cases "r_exists rt")
    case False
    then show ?thesis using Cons by simp
  next
    case True
    from walkFiles_bound [OF Cons.prems(1), of e "walk_params cfg rt" cfg m rt fuel]
    show ?thesis using Cons True
      by (auto split: option.splits ctl.splits)
  qed
qed

lemma number_or_pos: "0 < d \<Longrightarrow> 0 < number_or v d"
  by (simp add: number_or_def split: option.splits)

lemma getPluginCfg_pos:
  "getPluginCfg a = Inr cfg \<Longrightarrow> 0 < cfg_maxHits cfg \<and> 0 < cfg_maxFileBytes cfg"
  by (auto simp: getPluginCfg_def Let_def number_or_pos split: option.splits if_splits)

lemma resolveRoots_pos:
  "resolveRoots e a = Inr (cfg, roots) \<Longrightarrow> 0 < cfg_maxHits cfg \<and> 0 < cfg_maxFileBytes cfg"
  by (auto simp: resolveRoots_def split: sum.splits dest: getPluginCfg_pos)

lemma searchAcrossRoots_bound:
  fixes params :: SearchParams
  assumes r: "resolveRoots e a = Inr (cfg, roots)"
    and s: "searchAcrossRoots e a fuel params = Some (Inr res)"
  shows "real (length (hits res)) < effective_maxHits (sp_maxHits params) cfg + 1"
proof -
  have pos: "0 < effective_maxHits (sp_maxHits params) cfg"
    using resolveRoots_pos [OF r] by (simp add: effective_maxHits_def number_or_pos)
  from s r obtain m st' where
    "search_roots e cfg m (effective_maxHits (sp_maxHits params) cfg) fuel
        (select_roots (sp_rootIds params) roots) (empty_result, 0) = Some st'" "res = fst st'"
    by (auto simp: searchAcrossRoots_def Let_def split: sum.splits)
  with search_roots_bound [of "(empty_result, 0)" _ e cfg m fuel _ st'] pos
  show ?thesis by (simp add: empty_result_def)
qed

lemma scan_lines_prefix_return:
  "scan_lines e m cap rt f pre i st = Return r \<Longrightarrow> scan_lines e m cap rt f (pre @ rest) i st = Return r"
  by (induction pre arbitrary: i st) (auto simp: Let_def split: prod.splits if_splits)

lemma walk_entries_prefix_return:
  "walk_entries e params body rr dir pre st = Return r \<Longrightarrow>
   walk_entries e params body rr dir (pre @ rest) st = Return r"
  by (induction pre arbitrary: st) (auto split: ctl.splits)

section \<open>The hit cap\<close>

lemma of_nat_lt_of_int_plus1:
  assumes "real n < c + 1" "c \<in> \<int>"
  shows "real n \<le> c"
proof -
  from assms(2) obtain z where c: "c = of_int z" by (auto elim: Ints_cases)
  from assms(1) have "int n < z + 1" unfolding c by linarith
  then have "int n \<le> z" by simp
  then show ?thesis unfolding c by (metis of_int_le_iff of_int_of_nat_eq)
qed

lemma scan_lines_return_at_cap:
  assumes "fst (matcher_test m li line)" "cap \<le> real (length (hits res)) + 1"
  shows "scan_lines e m cap rt filePath (line # rest) i (res :: SearchResult, li)
           = Return (res\<lparr>hits := hits res @ [make_hit e rt filePath i line]\<rparr>,
                     snd (matcher_test m li line))"
  using assms by (cases "matcher_test m li line") (simp add: Let_def)

lemma walk_entry_yield_return:
  assumes "entry_action e wp rr dir ent = Yield p" "body p (snd st) = Return r"
  shows "walk_entry e wp body rr dir ent st = Return r"
  using assms by (simp add: walk_entry_action)

lemma walk_loop_return:
  assumes "dir \<noteq> []" "fs_readdir e dir = Some entries"
    "walk_entries e wp body rr dir entries (stack, s) = Return r"
  shows "walk_loop e wp body rr (Suc fuel) (dir # stack) s = Some (Return r)"
  using assms by simp

lemma search_roots_return:
  assumes "r_exists rt"
    "walkFiles e (walk_params cfg rt) (search_file e cfg m cap rt) fuel st = Some (Return st')"
  shows "search_roots e cfg m cap fuel (rt # rest) st = Some st'"
  using assms by simp

lemma scan_lines_append:
  "scan_lines e m cap rt f pre i st = Continue st1 \<Longrightarrow>
   scan_lines e m cap rt f (pre @ ls) i st = scan_lines e m cap rt f ls (i + length pre) st1"
  by (induction pre arbitrary: i st) (auto simp: Let_def split: prod.splits if_splits)

lemma walk_entries_append:
  "walk_entries e wp body rr dir pre st = Continue st1 \<Longrightarrow>
   walk_entries e wp body rr dir (pre @ ls) st = walk_entries e wp body rr dir ls st1"
  by (induction pre arbitrary: st) (auto split: ctl.splits)

lemma search_file_return_at_cap:
  fixes res res1 :: SearchResult
  assumes below: "real (length (hits res)) < cap"
    and rd: "readTextFileLimited e f (cfg_maxFileBytes cfg) = Some content"
    and sp: "split_lines content = pre @ line # rest"
    and pre: "scan_lines e m cap rt f pre 0 (res\<lparr>scannedFiles := scannedFiles res + 1\<rparr>, li)
                = Continue (res1, li1)"
    and mt: "fst (matcher_test m li1 line)"
    and cap: "cap \<le> real (length (hits res1)) + 1"
  shows "search_file e cfg m cap rt f (res, li)
           = Return (res1\<lparr>hits := hits res1 @ [make_hit e rt f (length pre) line]\<rparr>,
                     snd (matcher_test m li1 line))"
proof -
  have "search_file e cfg m cap rt f (res, li)
          = scan_lines e m cap rt f (pre @ line # rest) 0
              (res\<lparr>scannedFiles := scannedFiles res + 1\<rparr>, li)"
    using below rd sp by (simp add: search_file_def Let_def)
  also have "\<dots> = scan_lines e m cap rt f (line # rest) (0 + length pre) (res1, li1)"
    by (rule scan_lines_append [OF pre])
  also have "\<dots> = Return (res1\<lparr>hits := hits res1 @ [make_hit e rt f (0 + length pre) line]\<rparr>,
                     snd (matcher_test m li1 line))"
    by (rule scan_lines_return_at_cap [OF mt cap])
  finally show ?thesis by simp
qed

lemma walk_reach_loop:
  "walk_reach e wp body rr n c c' \<Longrightarrow>
   walk_loop e wp body rr (n + k) (fst c) (snd c) = walk_loop e wp body rr k (fst c') (snd c')"
proof (induction rule: walk_reach.induct)
  case (start c)
  then show ?case by simp
next
  case (unread dir n stack s c)
  then show ?case by auto
next
  case (listed dir entries stack s c1 n c)
  then show ?case by (cases c1) simp
qed

lemma walk_reach_inv:
  assumes body: "\<And>p s. I s \<Longrightarrow> (case body p s of Return r \<Rightarrow> True | Continue s' \<Rightarrow> I s')"
    and reach: "walk_reach e wp body rr n c c'"
    and init: "I (snd c)"
  shows "I (snd c')"
  using reach init
proof (induction rule: walk_reach.induct)
  case (start c)
  then show ?case by simp
next
  case (unread dir n stack s c)
  then show ?case by simp
next
  case (listed dir entries stack s c1 n c)
  have "case walk_entries e wp body rr dir entries (stack, s) of
          Return r \<Rightarrow> True
        | Continue st' \<Rightarrow> (\<forall>d \<in> set (fst st'). True) \<and> I (snd st')"
    by (rule walk_entries_inv [where Py = "\<lambda>_. True" and Pd = "\<lambda>_. True" and R = "\<lambda>_. True"])
       (use body listed.prems in \<open>auto split: action.splits\<close>)
  with listed have "I (snd c1)" by simp
  then show ?case by (rule listed.IH)
qed

lemma walk_entries_continue_inv:
  assumes body: "\<And>p s. I s \<Longrightarrow> (case body p s of Return r \<Rightarrow> True | Continue s' \<Rightarrow> I s')"
    and w: "walk_entries e wp body rr dir ents st = Continue st'"
    and init: "I (snd st)"
  shows "I (snd st')"
proof -
  have "case walk_entries e wp body rr dir ents st of
          Return r \<Rightarrow> True
        | Continue st' \<Rightarrow> (\<forall>d \<in> set (fst st'). True) \<and> I (snd st')"
    by (rule walk_entries_inv [where Py = "\<lambda>_. True" and Pd = "\<lambda>_. True" and R = "\<lambda>_. True"])
       (use body init in \<open>auto split: action.splits\<close>)
  with w show ?thesis by simp
qed

lemma search_file_below:
  "real (length (hits (fst s))) < cap \<Longrightarrow>
   (case search_file e cfg m cap rt p s of
      Return r \<Rightarrow> True
    | Continue s' \<Rightarrow> real (length (hits (fst s'))) < cap)"
  using search_file_bound [of s cap e cfg m rt p] by (auto split: ctl.splits)

lemma search_roots_append:
  assumes "real (length (hits (fst st))) < cap"
    "search_roots e cfg m cap fuel rpre st = Some s0"
    "real (length (hits (fst s0))) < cap"
  shows "search_roots e cfg m cap fuel (rpre @ rest) st = search_roots e cfg m cap fuel rest s0"
  using assms
proof (induction rpre arbitrary: st)
  case Nil
  then show ?case by simp
next
  case (Cons rt rpre)
  show ?case
  proof (cases "r_exists rt")
    case False
    then show ?thesis using Cons by simp
  next
    case True
    from walkFiles_bound [OF Cons.prems(1), of e "walk_params cfg rt" cfg m rt fuel]
    show ?thesis using Cons True
      by (auto split: option.splits ctl.splits)
  qed
qed

lemma walkFiles_loop:
  "walkFiles e (walk_params cfg rt) body fuel s
     = walk_loop e (walk_params cfg rt) body (read_rootReal e rt) fuel [r_path rt] s"
  by (simp add: walkFiles_def walk_params_def read_rootReal_def Let_def split: option.splits)

lemma walk_return_at_cap:
  fixes res res1 :: SearchResult
  assumes below: "real (length (hits (fst s0))) < cap"
    and reach: "walk_reach e (walk_params cfg rt) (search_file e cfg m cap rt) (read_rootReal e rt) n
                  ([r_path rt], s0) (dir # stack, s1)"
    and fuel: "n < fuel"
    and dir: "dir \<noteq> []" "fs_readdir e dir = Some (pre_ents @ ent # rest_ents)"
    and ents: "walk_entries e (walk_params cfg rt) (search_file e cfg m cap rt) (read_rootReal e rt)
                 dir pre_ents (stack, s1) = Continue (stack1, (res, li))"
    and act: "entry_action e (walk_params cfg rt) (read_rootReal e rt) dir ent = Yield f"
    and rd: "readTextFileLimited e f (cfg_maxFileBytes cfg) = Some content"
    and sp: "split_lines content = pre @ line # rest"
    and pre: "scan_lines e m cap rt f pre 0 (res\<lparr>scannedFiles := scannedFiles res + 1\<rparr>, li)
                = Continue (res1, li1)"
    and mt: "fst (matcher_test m li1 line)"
    and cap: "cap \<le> real (length (hits res1)) + 1"
  shows "walkFiles e (walk_params cfg rt) (search_file e cfg m cap rt) fuel s0
           = Some (Return (res1\<lparr>hits := hits res1 @ [make_hit e rt f (length pre) line]\<rparr>,
                           snd (matcher_test m li1 line)))"
proof -
  let ?wp = "walk_params cfg rt" and ?body = "search_file e cfg m cap rt" and ?rr = "read_rootReal e rt"
  let ?R = "(res1\<lparr>hits := hits res1 @ [make_hit e rt f (length pre) line]\<rparr>,
             snd (matcher_test m li1 line))"
  have b1: "real (length (hits (fst s1))) < cap"
    using walk_reach_inv [where I = "\<lambda>s. real (length (hits (fst s))) < cap", OF _ reach]
      search_file_below below by simp
  have b2: "real (length (hits res)) < cap"
    using walk_entries_continue_inv [where I = "\<lambda>s. real (length (hits (fst s))) < cap", OF _ ents]
      search_file_below b1 by simp
  have sf: "?body f (res, li) = Return ?R"
    by (rule search_file_return_at_cap [OF b2 rd sp pre mt cap])
  have we: "walk_entry e ?wp ?body ?rr dir ent (stack1, (res, li)) = Return ?R"
    using act sf by (simp add: walk_entry_action)
  have "walk_entries e ?wp ?body ?rr dir (pre_ents @ ent # rest_ents) (stack, s1)
          = walk_entries e ?wp ?body ?rr dir (ent # rest_ents) (stack1, (res, li))"
    by (rule walk_entries_append [OF ents])
  also have "\<dots> = Return ?R" using we by simp
  finally have wes: "walk_entries e ?wp ?body ?rr dir (pre_ents @ ent # rest_ents) (stack, s1)
                       = Return ?R" .
  from less_imp_Suc_add [OF fuel] obtain k where k: "fuel = n + Suc k" by auto
  have "walk_loop e ?wp ?body ?rr (n + Suc k) [r_path rt] s0
          = walk_loop e ?wp ?body ?rr (Suc k) (dir # stack) s1"
    using walk_reach_loop [OF reach, of "Suc k"] by simp
  also have "\<dots> = Some (Return ?R)" using dir wes by simp
  finally show ?thesis unfolding walkFiles_loop k .
qed

lemma search_return_at_cap:
  fixes params :: SearchParams and res res1 :: SearchResult
  assumes r: "resolveRoots e a = Inr (cfg, roots)"
    and cap: "cap = effective_maxHits (sp_maxHits params) cfg"
    and mk: "makeMatcher e (sp_query params) (sp_regex params = Some True)
               (sp_caseSensitive params = Some True) = Inr m"
    and sel: "select_roots (sp_rootIds params) roots = rpre @ rt # rrest"
    and before: "search_roots e cfg m cap fuel rpre (empty_result, 0) = Some s0"
    and below: "real (length (hits (fst s0))) < cap"
    and ex: "r_exists rt"
    and reach: "walk_reach e (walk_params cfg rt) (search_file e cfg m cap rt) (read_rootReal e rt) n
                  ([r_path rt], s0) (dir # stack, s1)"
    and fuel: "n < fuel"
    and dir: "dir \<noteq> []" "fs_readdir e dir = Some (pre_ents @ ent # rest_ents)"
    and ents: "walk_entries e (walk_params cfg rt) (search_file e cfg m cap rt) (read_rootReal e rt)
                 dir pre_ents (stack, s1) = Continue (stack1, (res, li))"
    and act: "entry_action e (walk_params cfg rt) (read_rootReal e rt) dir ent = Yield f"
    and rd: "readTextFileLimited e f (cfg_maxFileBytes cfg) = Some content"
    and sp: "split_lines content = pre @ line # rest"
    and pre: "scan_lines e m cap rt f pre 0 (res\<lparr>scannedFiles := scannedFiles res + 1\<rparr>, li)
                = Continue (res1, li1)"
    and mt: "fst (matcher_test m li1 line)"
    and reached: "cap \<le> real (length (hits res1)) + 1"
  shows "searchAcrossRoots e a fuel params
           = Some (Inr (res1\<lparr>hits := hits res1 @ [make_hit e rt f (length pre) line]\<rparr>))"
proof -
  have pos: "0 < cap"
    using resolveRoots_pos [OF r] by (simp add: cap effective_maxHits_def number_or_pos)
  then have b0: "real (length (hits (fst (empty_result, 0::nat)))) < cap"
    by (simp add: empty_result_def)
  have wf: "walkFiles e (walk_params cfg rt) (search_file e cfg m cap rt) fuel s0
           = Some (Return (res1\<lparr>hits := hits res1 @ [make_hit e rt f (length pre) line]\<rparr>,
                           snd (matcher_test m li1 line)))"
    by (rule walk_return_at_cap [OF below reach fuel dir ents act rd sp pre mt reached])
  have "search_roots e cfg m cap fuel (rpre @ rt # rrest) (empty_result, 0)
          = search_roots e cfg m cap fuel (rt # rrest) s0"
    by (rule search_roots_append [OF b0 before below])
  also have "\<dots> = Some (res1\<lparr>hits := hits res1 @ [make_hit e rt f (length pre) line]\<rparr>,
                           snd (matcher_test m li1 line))"
    using ex wf by simp
  finally have sr: "search_roots e cfg m cap fuel (select_roots (sp_rootIds params) roots) (empty_result, 0)
           = Some (res1\<lparr>hits := hits res1 @ [make_hit e rt f (length pre) line]\<rparr>,
                           snd (matcher_test m li1 line))"
    unfolding sel .
  show ?thesis
    unfolding searchAcrossRoots_def Let_def
    by (simp only: r mk sr [unfolded cap] sum.case prod.case option.map fst_conv)
qed

lemma search_file_return_or_below:
  assumes "real (length (hits (fst st))) < cap"
  shows "case search_file e cfg m cap rt f st of
           Return st' \<Rightarrow> cap \<le> real (length (hits (fst st')))
         | Continue st' \<Rightarrow> real (length (hits (fst st'))) < cap"
  using search_file_bound [OF assms, of e cfg m rt f] by (auto split: ctl.splits)

text \<open>
  Claim C2, as the code has it.  The effective cap is the caller's \<open>maxHits\<close> when that is a
  positive number, else the configured default.  A search that returns has collected fewer
  than cap + 1 hits, hence at most cap hits when the cap is a whole number.  The search
  returns at the hit that reaches the cap: the line loop returns at that line whatever lines
  follow; the return of the loop body at a yielded file ends the entry loop whatever entries
  follow, ends the walk whatever directories are still on the stack, and ends the loop over
  the roots whatever roots follow.  The loop body goes on to the next file only below the
  cap, and it returns at the line that reaches the cap: when the lines before it in the file
  left the search going, the body returns the result with that line's hit as the last one.
  End to end: when the roots before a root were searched without reaching the cap, the walk
  of that root has come to a directory, the entries before a yielded file of that directory
  left the search going, and a line of that file reaches the cap, then the search returns
  the result as it stands at that line, with that line's hit as the last one and that file
  as the last one counted, whatever lines, entries, directories and roots follow.
\<close>

theorem search_hits_capped:
  fixes params :: SearchParams
  assumes r: "resolveRoots e a = Inr (cfg, roots)"
    and cap: "cap = effective_maxHits (sp_maxHits params) cfg"
  shows "cap = (case sp_maxHits params of
                  None \<Rightarrow> cfg_maxHits cfg
                | Some x \<Rightarrow> if x > 0 then x else cfg_maxHits cfg)
     \<and> (\<forall>res. searchAcrossRoots e a fuel params = Some (Inr res) \<longrightarrow>
           real (length (hits res)) < cap + 1 \<and> (cap \<in> \<int> \<longrightarrow> real (length (hits res)) \<le> cap))
     \<and> (\<forall>m rt filePath line rest i (res :: SearchResult) li.
           fst (matcher_test m li line) \<and> cap \<le> real (length (hits res)) + 1 \<longrightarrow>
           scan_lines e m cap rt filePath (line # rest) i (res, li)
             = Return (res\<lparr>hits := hits res @ [make_hit e rt filePath i line]\<rparr>,
                       snd (matcher_test m li line)))
     \<and> (\<forall>m rt filePath wp rr dir ent (st :: string list \<times> SearchResult \<times> nat) st'.
           entry_action e wp rr dir ent = Yield filePath
           \<and> search_file e cfg m cap rt filePath (snd st) = Return st' \<longrightarrow>
           walk_entry e wp (search_file e cfg m cap rt) rr dir ent st = Return st')
     \<and> (\<forall>m rt wp rr dir pre rest (st :: string list \<times> SearchResult \<times> nat) st'.
           walk_entries e wp (search_file e cfg m cap rt) rr dir pre st = Return st' \<longrightarrow>
           walk_entries e wp (search_file e cfg m cap rt) rr dir (pre @ rest) st = Return st')
     \<and> (\<forall>m rt wp rr fuel' dir stack entries (s :: SearchResult \<times> nat) st'.
           dir \<noteq> [] \<and> fs_readdir e dir = Some entries
           \<and> walk_entries e wp (search_file e cfg m cap rt) rr dir entries (stack, s) = Return st' \<longrightarrow>
           walk_loop e wp (search_file e cfg m cap rt) rr (Suc fuel') (dir # stack) s
             = Some (Return st'))
     \<and> (\<forall>m rt rest st st'.
           r_exists rt
           \<and> walkFiles e (walk_params cfg rt) (search_file e cfg m cap rt) fuel st
               = Some (Return st') \<longrightarrow>
           search_roots e cfg m cap fuel (rt # rest) st = Some st')
     \<and> (\<forall>m rt filePath (st :: SearchResult \<times> nat).
           real (length (hits (fst st))) < cap \<longrightarrow>
           (case search_file e cfg m cap rt filePath st of
              Return st' \<Rightarrow> cap \<le> real (length (hits (fst st')))
            | Continue st' \<Rightarrow> real (length (hits (fst st'))) < cap))
     \<and> (\<forall>m rt filePath content pre line rest (res :: SearchResult) li (res1 :: SearchResult) li1.
           real (length (hits res)) < cap
           \<and> readTextFileLimited e filePath (cfg_maxFileBytes cfg) = Some content
           \<and> split_lines content = pre @ line # rest
           \<and> scan_lines e m cap rt filePath pre 0 (res\<lparr>scannedFiles := scannedFiles res + 1\<rparr>, li)
               = Continue (res1, li1)
           \<and> fst (matcher_test m li1 line)
           \<and> cap \<le> real (length (hits res1)) + 1 \<longrightarrow>
           search_file e cfg m cap rt filePath (res, li)
             = Return (res1\<lparr>hits := hits res1 @ [make_hit e rt filePath (length pre) line]\<rparr>,
                       snd (matcher_test m li1 line)))
     \<and> (\<forall>m rpre rt rrest s0 n dir stack s1 pre_ents ent rest_ents stack1
           filePath content pre line rest (res :: SearchResult) li (res1 :: SearchResult) li1.
           makeMatcher e (sp_query params) (sp_regex params = Some True)
               (sp_caseSensitive params = Some True) = Inr m
           \<and> select_roots (sp_rootIds params) roots = rpre @ rt # rrest
           \<and> search_roots e cfg m cap fuel rpre (empty_result, 0) = Some s0
           \<and> real (length (hits (fst s0))) < cap
           \<and> r_exists rt
           \<and> walk_reach e (walk_params cfg rt) (search_file e cfg m cap rt) (read_rootReal e rt) n
                 ([r_path rt], s0) (dir # stack, s1)
           \<and> n < fuel
           \<and> dir \<noteq> [] \<and> fs_readdir e dir = Some (pre_ents @ ent # rest_ents)
           \<and> walk_entries e (walk_params cfg rt) (search_file e cfg m cap rt) (read_rootReal e rt)
                 dir pre_ents (stack, s1) = Continue (stack1, (res, li))
           \<and> entry_action e (walk_params cfg rt) (read_rootReal e rt) dir ent = Yield filePath
           \<and> readTextFileLimited e filePath (cfg_maxFileBytes cfg) = Some content
           \<and> split_lines content = pre @ line # rest
           \<and> scan_lines e m cap rt filePath pre 0 (res\<lparr>scannedFiles := scannedFiles res + 1\<rparr>, li)
               = Continue (res1, li1)
           \<and> fst (matcher_test m li1 line)
           \<and> cap \<le> real (length (hits res1)) + 1 \<longrightarrow>
           searchAcrossRoots e a fuel params
             = Some (Inr (res1\<lparr>hits := hits res1 @ [make_hit e rt filePath (length pre) line]\<rparr>)))"
proof (intro conjI allI impI)
  show "cap = (case sp_maxHits params of
                  None \<Rightarrow> cfg_maxHits cfg
                | Some x \<Rightarrow> if x > 0 then x else cfg_maxHits cfg)"
    by (simp add: cap effective_maxHits_def number_or_def split: option.splits)
next
  fix res assume s: "searchAcrossRoots e a fuel params = Some (Inr res)"
  show b: "real (length (hits res)) < cap + 1"
    unfolding cap by (rule searchAcrossRoots_bound [OF r s])
  assume "cap \<in> \<int>"
  with b show "real (length (hits res)) \<le> cap" by (rule of_nat_lt_of_int_plus1)
next
  fix m rt filePath line rest i li and res :: SearchResult
  assume h: "fst (matcher_test m li line) \<and> cap \<le> real (length (hits res)) + 1"
  show "scan_lines e m cap rt filePath (line # rest) i (res, li)
             = Return (res\<lparr>hits := hits res @ [make_hit e rt filePath i line]\<rparr>,
                       snd (matcher_test m li line))"
    by (rule scan_lines_return_at_cap [OF conjunct1 [OF h] conjunct2 [OF h]])
next
  fix m rt filePath wp rr dir ent and st :: "string list \<times> SearchResult \<times> nat" and st'
  assume "entry_action e wp rr dir ent = Yield filePath
           \<and> search_file e cfg m cap rt filePath (snd st) = Return st'"
  then show "walk_entry e wp (search_file e cfg m cap rt) rr dir ent st = Return st'"
    by (simp add: walk_entry_yield_return)
next
  fix m rt wp rr dir pre rest and st :: "string list \<times> SearchResult \<times> nat" and st'
  assume "walk_entries e wp (search_file e cfg m cap rt) rr dir pre st = Return st'"
  then show "walk_entries e wp (search_file e cfg m cap rt) rr dir (pre @ rest) st = Return st'"
    by (rule walk_entries_prefix_return)
next
  fix m rt wp rr fuel' dir stack entries and s :: "SearchResult \<times> nat" and st'
  assume "dir \<noteq> [] \<and> fs_readdir e dir = Some entries
           \<and> walk_entries e wp (search_file e cfg m cap rt) rr dir entries (stack, s) = Return st'"
  then show "walk_loop e wp (search_file e cfg m cap rt) rr (Suc fuel') (dir # stack) s
             = Some (Return st')"
    by (simp add: walk_loop_return)
next
  fix m rt rest st st'
  assume "r_exists rt
           \<and> walkFiles e (walk_params cfg rt) (search_file e cfg m cap rt) fuel st
               = Some (Return st')"
  then show "search_roots e cfg m cap fuel (rt # rest) st = Some st'"
    by (simp add: search_roots_return)
next
  fix m rt filePath and st :: "SearchResult \<times> nat"
  assume "real (length (hits (fst st))) < cap"
  then show "case search_file e cfg m cap rt filePath st of
              Return st' \<Rightarrow> cap \<le> real (length (hits (fst st')))
            | Continue st' \<Rightarrow> real (length (hits (fst st'))) < cap"
    by (rule search_file_return_or_below)
next
  fix m rt filePath content pre line rest li li1 and res res1 :: SearchResult
  assume h: "real (length (hits res)) < cap
           \<and> readTextFileLimited e filePath (cfg_maxFileBytes cfg) = Some content
           \<and> split_lines content = pre @ line # rest
           \<and> scan_lines e m cap rt filePath pre 0 (res\<lparr>scannedFiles := scannedFiles res + 1\<rparr>, li)
               = Continue (res1, li1)
           \<and> fst (matcher_test m li1 line)
           \<and> cap \<le> real (length (hits res1)) + 1"
  show "search_file e cfg m cap rt filePath (res, li)
             = Return (res1\<lparr>hits := hits res1 @ [make_hit e rt filePath (length pre) line]\<rparr>,
                       snd (matcher_test m li1 line))"
    by (rule search_file_return_at_cap) (use h in blast)+
next
  fix m rpre rt rrest s0 n dir stack s1 pre_ents ent rest_ents stack1
    filePath content pre line rest li li1 and res res1 :: SearchResult
  assume h: "makeMatcher e (sp_query params) (sp_regex params = Some True)
               (sp_caseSensitive params = Some True) = Inr m
           \<and> select_roots (sp_rootIds params) roots = rpre @ rt # rrest
           \<and> search_roots e cfg m cap fuel rpre (empty_result, 0) = Some s0
           \<and> real (length (hits (fst s0))) < cap
           \<and> r_exists rt
           \<and> walk_reach e (walk_params cfg rt) (search_file e cfg m cap rt) (read_rootReal e rt) n
                 ([r_path rt], s0) (dir # stack, s1)
           \<and> n < fuel
           \<and> dir \<noteq> [] \<and> fs_readdir e dir = Some (pre_ents @ ent # rest_ents)
           \<and> walk_entries e (walk_params cfg rt) (search_file e cfg m cap rt) (read_rootReal e rt)
                 dir pre_ents (stack, s1) = Continue (stack1, (res, li))
           \<and> entry_action e (walk_params cfg rt) (read_rootReal e rt) dir ent = Yield filePath
           \<and> readTextFileLimited e filePath (cfg_maxFileBytes cfg) = Some content
           \<and> split_lines content = pre @ line # rest
           \<and> scan_lines e m cap rt filePath pre 0 (res\<lparr>scannedFiles := scannedFiles res + 1\<rparr>, li)
               = Continue (res1, li1)
           \<and> fst (matcher_test m li1 line)
           \<and> cap \<le> real (length (hits res1)) + 1"
  show "searchAcrossRoots e a fuel params
             = Some (Inr (res1\<lparr>hits := hits res1 @ [make_hit e rt filePath (length pre) line]\<rparr>))"
    by (rule search_return_at_cap [OF r cap]) (use h in blast)+
qed

theorem search_hits_capped_witness:
  "searchAcrossRoots demo_env demo_api 1
     \<lparr> sp_query = ''UI_Draw'', sp_rootIds = None, sp_regex = None, sp_caseSensitive = None,
       sp_maxHits = Some 1 \<rparr>
     = Some (Inr \<lparr> hits = [\<lparr> h_rootId = ''requirements'', h_file = ''audio.md'', h_line = 1,
                              h_text = ''Need UI_Draw in bank UI.'' \<rparr>],
                    scannedFiles = 1, skippedLargeFiles = 0 \<rparr>)
   \<and> real (length [\<lparr> h_rootId = ''requirements'', h_file = ''audio.md'', h_line = 1,
                      h_text = ''Need UI_Draw in bank UI.'' \<rparr>]) \<le> 1
   \<and> searchAcrossRoots demo_env demo_api 1
     \<lparr> sp_query = ''UI_Draw'', sp_rootIds = None, sp_regex = None, sp_caseSensitive = None,
       sp_maxHits = Some 2 \<rparr>
     = Some (Inr \<lparr> hits = [\<lparr> h_rootId = ''requirements'', h_file = ''audio.md'', h_line = 1,
                              h_text = ''Need UI_Draw in bank UI.'' \<rparr>,
                            \<lparr> h_rootId = ''requirements'', h_file = ''audio.md'', h_line = 2,
                              h_text = ''UI_Draw again'' \<rparr>],
                    scannedFiles = 1, skippedLargeFiles = 0 \<rparr>)
   \<and> searchAcrossRoots demo_env demo_api 1
     \<lparr> sp_query = ''UI_Draw'', sp_rootIds = None, sp_regex = None, sp_caseSensitive = None,
       sp_maxHits = Some 4 \<rparr>
     = Some (Inr \<lparr> hits = [\<lparr> h_rootId = ''requirements'', h_file = ''audio.md'', h_line = 1,
                              h_text = ''Need UI_Draw in bank UI.'' \<rparr>,
                            \<lparr> h_rootId = ''requirements'', h_file = ''audio.md'', h_line = 2,
                              h_text = ''UI_Draw again'' \<rparr>,
                            \<lparr> h_rootId = ''requirements'', h_file = ''notes..md'', h_line = 1,
                              h_text = ''UI_Draw notes'' \<rparr>,
                            \<lparr> h_rootId = ''wwise'', h_file = ''Events.wwu'', h_line = 1,
                              h_text = ''<Event Name='' @ [CHR 0x22] @ ''UI_Draw'' @ [CHR 0x22]
                                         @ '' Id=1/>'' \<rparr>],
                    scannedFiles = 3, skippedLargeFiles = 0 \<rparr>)"
proof -
  let ?p = "\<lparr> sp_query = ''UI_Draw'', sp_rootIds = None, sp_regex = None, sp_caseSensitive = None,
       sp_maxHits = Some (1::real) \<rparr>"
  let ?p2 = "\<lparr> sp_query = ''UI_Draw'', sp_rootIds = None, sp_regex = None, sp_caseSensitive = None,
       sp_maxHits = Some (2::real) \<rparr>"
  let ?h1 = "\<lparr> h_rootId = ''requirements'', h_file = ''audio.md'', h_line = 1,
               h_text = ''Need UI_Draw in bank UI.'' \<rparr>"
  let ?h2 = "\<lparr> h_rootId = ''requirements'', h_file = ''audio.md'', h_line = 2,
               h_text = ''UI_Draw again'' \<rparr>"
  let ?res = "\<lparr> hits = [?h1], scannedFiles = 1, skippedLargeFiles = 0 \<rparr>"
  let ?m = "Substring False (toLowerCase ''UI_Draw'')"
  let ?ent = "\<lparr>d_name = ''audio.md'', d_kind = DFile\<rparr>"
  let ?ent2 = "\<lparr>d_name = ''notes..md'', d_kind = DFile\<rparr>"
  let ?f = "''/g/req/audio.md''"
  let ?l1 = "''Need UI_Draw in bank UI.''" and ?l2 = "''UI_Draw again''" and ?l3 = "''no match here''"
  let ?content = "?l1 @ [CHR 0x0D, CHR 0x0A] @ ?l2 @ [CHR 0x0A] @ ?l3"
  let ?s0 = "(empty_result, 0::nat)"
  have s: "searchAcrossRoots demo_env demo_api 1 ?p = Some (Inr ?res)" by code_simp
  define cfg where "cfg = fst (projr (resolveRoots demo_env demo_api))"
  define roots where "roots = snd (projr (resolveRoots demo_env demo_api))"
  define rt where "rt = hd roots"
  define rrest where "rrest = tl roots"
  have "\<not> isl (resolveRoots demo_env demo_api)" by code_simp
  then have r: "resolveRoots demo_env demo_api = Inr (cfg, roots)"
    by (cases "resolveRoots demo_env demo_api") (simp_all add: cfg_def roots_def)
  have "roots \<noteq> []" unfolding roots_def by code_simp
  then have roots: "roots = rt # rrest" by (simp add: rt_def rrest_def)
  have ex: "r_exists rt" unfolding rt_def roots_def by code_simp
  have rp: "r_path rt = ''/g/req''" unfolding rt_def roots_def by code_simp
  have act: "entry_action demo_env (walk_params cfg rt) (read_rootReal demo_env rt) ''/g/req'' ?ent
                = Yield ?f"
    unfolding rt_def roots_def cfg_def by code_simp
  have rd: "readTextFileLimited demo_env ?f (cfg_maxFileBytes cfg) = Some ?content"
    unfolding cfg_def by code_simp
  have pre: "scan_lines demo_env ?m 2 rt ?f [?l1] 0
                (empty_result\<lparr>scannedFiles := scannedFiles empty_result + 1\<rparr>, 0)
              = Continue (?res, 0)"
    unfolding rt_def roots_def by code_simp
  have mh: "make_hit demo_env rt ?f 1 ?l2 = ?h2"
    unfolding rt_def roots_def by code_simp
  have c: "effective_maxHits (sp_maxHits ?p) cfg = 1" by (simp add: effective_maxHits_def number_or_def)
  have c2: "effective_maxHits (sp_maxHits ?p2) cfg = 2" by (simp add: effective_maxHits_def number_or_def)
  have "real (length (hits ?res)) < 1 + 1 \<and> ((1::real) \<in> \<int> \<longrightarrow> real (length (hits ?res)) \<le> 1)"
    using search_hits_capped [OF r c [symmetric], where fuel = 1, THEN conjunct2, THEN conjunct1] s by blast
  then have le: "real (length (hits ?res)) \<le> 1" by simp
  have mk: "makeMatcher demo_env (sp_query ?p2) (sp_regex ?p2 = Some True)
              (sp_caseSensitive ?p2 = Some True) = Inr ?m"
    by (simp add: makeMatcher_def)
  have sel: "select_roots (sp_rootIds ?p2) roots = [] @ rt # rrest"
    by (simp add: select_roots_def roots)
  have before: "search_roots demo_env cfg ?m 2 1 [] ?s0 = Some ?s0" by simp
  have below: "real (length (hits (fst ?s0))) < 2" by (simp add: empty_result_def)
  have reach: "walk_reach demo_env (walk_params cfg rt) (search_file demo_env cfg ?m 2 rt)
                 (read_rootReal demo_env rt) 0 ([r_path rt], ?s0) (''/g/req'' # [], ?s0)"
    unfolding rp by (rule walk_reach.start)
  have fuel: "(0::nat) < 1" by simp
  have dir: "''/g/req'' \<noteq> []" by simp
  have ls: "fs_readdir demo_env ''/g/req'' = Some ([] @ ?ent # [?ent2])" by code_simp
  have ents: "walk_entries demo_env (walk_params cfg rt) (search_file demo_env cfg ?m 2 rt)
                (read_rootReal demo_env rt) ''/g/req'' [] ([], ?s0) = Continue ([], (empty_result, 0))"
    by simp
  have sp: "split_lines ?content = [?l1] @ ?l2 # [?l3]" by code_simp
  have mt: "fst (matcher_test ?m 0 ?l2)" by code_simp
  have li: "snd (matcher_test ?m 0 ?l2) = 0" by simp
  have reached: "2 \<le> real (length (hits ?res)) + 1" by simp
  have "searchAcrossRoots demo_env demo_api 1 ?p2
          = Some (Inr (?res\<lparr>hits := hits ?res @ [make_hit demo_env rt ?f (length [?l1]) ?l2]\<rparr>))"
    using search_hits_capped [OF r c2 [symmetric], where fuel = 1,
        THEN conjunct2, THEN conjunct2, THEN conjunct2, THEN conjunct2, THEN conjunct2,
        THEN conjunct2, THEN conjunct2, THEN conjunct2, THEN conjunct2, rule_format,
        where m = ?m and rpre = "[]" and rt = rt and rrest = rrest and ?s0.0 = ?s0 and n = 0
          and dir = "''/g/req''" and stack = "[]" and ?s1.0 = ?s0 and pre_ents = "[]"
          and ent = ?ent and rest_ents = "[?ent2]" and ?stack1.0 = "[]" and filePath = ?f
          and content = ?content and pre = "[?l1]" and line = ?l2 and rest = "[?l3]"
          and res = empty_result and li = 0 and ?res1.0 = ?res and ?li1.0 = 0]
      mk sel before below ex reach fuel dir ls ents act rd sp pre mt reached
    by blast
  then have s2: "searchAcrossRoots demo_env demo_api 1 ?p2
          = Some (Inr \<lparr> hits = [?h1, ?h2], scannedFiles = 1, skippedLargeFiles = 0 \<rparr>)"
    using mh by simp
  let ?p4 = "\<lparr> sp_query = ''UI_Draw'', sp_rootIds = None, sp_regex = None, sp_caseSensitive = None,
       sp_maxHits = Some (4::real) \<rparr>"
  let ?h3 = "\<lparr> h_rootId = ''requirements'', h_file = ''notes..md'', h_line = 1,
               h_text = ''UI_Draw notes'' \<rparr>"
  let ?lw = "''<Event Name='' @ [CHR 0x22] @ ''UI_Draw'' @ [CHR 0x22] @ '' Id=1/>''"
  let ?h4 = "\<lparr> h_rootId = ''wwise'', h_file = ''Events.wwu'', h_line = 1, h_text = ?lw \<rparr>"
  let ?r3 = "\<lparr> hits = [?h1, ?h2, ?h3], scannedFiles = 2, skippedLargeFiles = 0 \<rparr>"
  let ?entw = "\<lparr>d_name = ''Events.wwu'', d_kind = DFile\<rparr>"
  let ?fw = "''/g/wwise/Events.wwu''"
  define rw where "rw = roots ! 1"
  have c4: "effective_maxHits (sp_maxHits ?p4) cfg = 4" by (simp add: effective_maxHits_def number_or_def)
  have mk4: "makeMatcher demo_env (sp_query ?p4) (sp_regex ?p4 = Some True)
              (sp_caseSensitive ?p4 = Some True) = Inr ?m"
    by (simp add: makeMatcher_def)
  have "roots = [rt] @ rw # drop 2 roots" unfolding rw_def rt_def roots_def by code_simp
  then have sel4: "select_roots (sp_rootIds ?p4) roots = [rt] @ rw # drop 2 roots"
    by (simp add: select_roots_def)
  have before4: "search_roots demo_env cfg ?m 4 1 [rt] ?s0 = Some (?r3, 0)"
    unfolding rt_def roots_def cfg_def by code_simp
  have below4: "real (length (hits (fst (?r3, 0::nat)))) < 4" by simp
  have exw: "r_exists rw" unfolding rw_def roots_def by code_simp
  have rpw: "r_path rw = ''/g/wwise''" unfolding rw_def roots_def by code_simp
  have reach4: "walk_reach demo_env (walk_params cfg rw) (search_file demo_env cfg ?m 4 rw)
                 (read_rootReal demo_env rw) 0 ([r_path rw], (?r3, 0)) (''/g/wwise'' # [], (?r3, 0))"
    unfolding rpw by (rule walk_reach.start)
  have dirw: "''/g/wwise'' \<noteq> []" by simp
  have lsw: "fs_readdir demo_env ''/g/wwise'' = Some ([] @ ?entw # [])" by code_simp
  have entsw: "walk_entries demo_env (walk_params cfg rw) (search_file demo_env cfg ?m 4 rw)
                (read_rootReal demo_env rw) ''/g/wwise'' [] ([], (?r3, 0)) = Continue ([], (?r3, 0))"
    by simp
  have actw: "entry_action demo_env (walk_params cfg rw) (read_rootReal demo_env rw) ''/g/wwise'' ?entw
                = Yield ?fw"
    unfolding rw_def roots_def cfg_def by code_simp
  have rdw: "readTextFileLimited demo_env ?fw (cfg_maxFileBytes cfg) = Some ?lw"
    unfolding cfg_def by code_simp
  have spw: "split_lines ?lw = [] @ ?lw # []" by code_simp
  have prew: "scan_lines demo_env ?m 4 rw ?fw [] 0 (?r3\<lparr>scannedFiles := scannedFiles ?r3 + 1\<rparr>, 0)
              = Continue (?r3\<lparr>scannedFiles := scannedFiles ?r3 + 1\<rparr>, 0)"
    by simp
  have mtw: "fst (matcher_test ?m 0 ?lw)" by code_simp
  have reached4: "4 \<le> real (length (hits (?r3\<lparr>scannedFiles := scannedFiles ?r3 + 1\<rparr>))) + 1" by simp
  have mhw: "make_hit demo_env rw ?fw 0 ?lw = ?h4"
    unfolding rw_def roots_def by code_simp
  have "searchAcrossRoots demo_env demo_api 1 ?p4
          = Some (Inr ((?r3\<lparr>scannedFiles := scannedFiles ?r3 + 1\<rparr>)
                         \<lparr>hits := hits (?r3\<lparr>scannedFiles := scannedFiles ?r3 + 1\<rparr>)
                                    @ [make_hit demo_env rw ?fw (length ([] :: string list)) ?lw]\<rparr>))"
    using search_hits_capped [OF r c4 [symmetric], where fuel = 1,
        THEN conjunct2, THEN conjunct2, THEN conjunct2, THEN conjunct2, THEN conjunct2,
        THEN conjunct2, THEN conjunct2, THEN conjunct2, THEN conjunct2, rule_format,
        where m = ?m and rpre = "[rt]" and rt = rw and rrest = "drop 2 roots" and ?s0.0 = "(?r3, 0)"
          and n = 0 and dir = "''/g/wwise''" and stack = "[]" and ?s1.0 = "(?r3, 0)"
          and pre_ents = "[]" and ent = ?entw and rest_ents = "[]" and ?stack1.0 = "[]"
          and filePath = ?fw and content = ?lw and pre = "[]" and line = ?lw and rest = "[]"
          and res = ?r3 and li = 0 and ?res1.0 = "?r3\<lparr>scannedFiles := scannedFiles ?r3 + 1\<rparr>"
          and ?li1.0 = 0]
      mk4 sel4 before4 below4 exw reach4 fuel dirw lsw entsw actw rdw spw prew mtw reached4
    by blast
  then have s4: "searchAcrossRoots demo_env demo_api 1 ?p4
          = Some (Inr \<lparr> hits = [?h1, ?h2, ?h3, ?h4], scannedFiles = 3, skippedLargeFiles = 0 \<rparr>)"
    using mhw by simp
  from s le s2 s4 show ?thesis by simp
qed

text \<open>
  The claim as worded fails for a cap that is not a whole number: with \<open>maxHits\<close> 1.5 the
  search returns two hits.
\<close>

theorem fractional_cap_counterexample:
  "searchAcrossRoots demo_env demo_api 1
     \<lparr> sp_query = ''UI_Draw'', sp_rootIds = None, sp_regex = None, sp_caseSensitive = None,
       sp_maxHits = Some (3 / 2) \<rparr>
     = Some (Inr \<lparr> hits = [\<lparr> h_rootId = ''requirements'', h_file = ''audio.md'', h_line = 1,
                              h_text = ''Need UI_Draw in bank UI.'' \<rparr>,
                            \<lparr> h_rootId = ''requirements'', h_file = ''audio.md'', h_line = 2,
                              h_text = ''UI_Draw again'' \<rparr>],
                    scannedFiles = 1, skippedLargeFiles = 0 \<rparr>)"
  by code_simp

section \<open>Files larger than the byte ceiling\<close>

lemma search_file_skips_large:
  assumes "fs_stat e filePath = Some s" "st_kind s = SFile" "real (st_size s) > cfg_maxFileBytes cfg"
    "real (length (hits res)) < maxHits"
  shows "search_file e cfg m maxHits rt filePath (res, li)
           = Continue (res\<lparr> scannedFiles := scannedFiles res + 1,
                             skippedLargeFiles := skippedLargeFiles res + 1 \<rparr>, li)"
  using assms by (simp add: search_file_def readTextFileLimited_def Let_def)

text \<open>
  Claim C4, as the code has it.  For a regular file larger than the configured byte ceiling:
  the search, when it comes to the file below the hit cap, counts it as scanned and as
  skipped and adds no hit; a direct read of the same file with the ceiling as \<open>maxBytes\<close>,
  when none of the read's refusal conditions holds, returns \<open>truncated = true\<close> and the
  decoding of the first \<open>maxBytes\<close> bytes (rounded down) of the file, which are that
  many bytes when the reported size is the length of the contents.
\<close>

theorem large_file_skipped_by_search_truncated_by_read:
  fixes res :: SearchResult
  assumes rr: "read_root e a rootId = Some (cfg, rt)"
    and st: "fs_stat e (read_absPath rt relPath) = Some s" "st_kind s = SFile"
    and big: "real (st_size s) > cfg_maxFileBytes cfg"
    and rd: "fs_readFile e (read_absPath rt relPath) = Some buf"
  shows "(real (length (hits res)) < maxHits \<longrightarrow>
            search_file e cfg m maxHits rt' (read_absPath rt relPath) (res, li)
              = Continue (res\<lparr> scannedFiles := scannedFiles res + 1,
                                skippedLargeFiles := skippedLargeFiles res + 1 \<rparr>, li))
       \<and> (\<not> spec_read_fails e a rootId relPath \<and> \<not> read_also_refused e a rootId relPath \<longrightarrow>
            readFileFromRoot e a rootId relPath (Some (cfg_maxFileBytes cfg))
              = Inr \<lparr> rd_rootId = r_id rt,
                      rd_absPath = read_absPath rt relPath,
                      rd_relPath = str_trim relPath,
                      rd_truncated = True,
                      rd_text = utf8 e (take (nat \<lfloor>cfg_maxFileBytes cfg\<rfloor>) buf) \<rparr>)
       \<and> (st_size s = length buf \<longrightarrow>
            length (take (nat \<lfloor>cfg_maxFileBytes cfg\<rfloor>) buf) = nat \<lfloor>cfg_maxFileBytes cfg\<rfloor>)"
proof (intro conjI impI)
  assume "real (length (hits res)) < maxHits"
  with st big show "search_file e cfg m maxHits rt' (read_absPath rt relPath) (res, li)
              = Continue (res\<lparr> scannedFiles := scannedFiles res + 1,
                                skippedLargeFiles := skippedLargeFiles res + 1 \<rparr>, li)"
    by (rule search_file_skips_large)
next
  assume h: "\<not> spec_read_fails e a rootId relPath \<and> \<not> read_also_refused e a rootId relPath"
  from read_root_resolve [OF rr] obtain roots where "resolveRoots e a = Inr (cfg, roots)" by blast
  then have pos: "0 < cfg_maxFileBytes cfg" by (simp add: resolveRoots_pos)
  then have n: "number_or (Some (cfg_maxFileBytes cfg)) (cfg_maxFileBytes cfg) = cfg_maxFileBytes cfg"
    by (simp add: number_or_def)
  from read_returns [OF rr conjunct1 [OF h] conjunct2 [OF h], of "Some (cfg_maxFileBytes cfg)"]
  show "readFileFromRoot e a rootId relPath (Some (cfg_maxFileBytes cfg))
              = Inr \<lparr> rd_rootId = r_id rt,
                      rd_absPath = read_absPath rt relPath,
                      rd_relPath = str_trim relPath,
                      rd_truncated = True,
                      rd_text = utf8 e (take (nat \<lfloor>cfg_maxFileBytes cfg\<rfloor>) buf) \<rparr>"
    using st rd big by (auto simp: n)
next
  assume "st_size s = length buf"
  with big have "cfg_maxFileBytes cfg < real (length buf)" by simp
  then have "nat \<lfloor>cfg_maxFileBytes cfg\<rfloor> \<le> length buf" by linarith
  then show "length (take (nat \<lfloor>cfg_maxFileBytes cfg\<rfloor>) buf) = nat \<lfloor>cfg_maxFileBytes cfg\<rfloor>"
    by simp
qed

theorem large_file_skipped_by_search_truncated_by_read_witness:
  "(\<exists>cfg rt. read_root demo_env demo_api_small ''requirements'' = Some (cfg, rt)
       \<and> cfg_maxFileBytes cfg = 10
       \<and> search_file demo_env cfg (Substring False ''ui_draw'') 50 rt ''/g/req/audio.md''
             (empty_result, 0)
           = Continue (empty_result\<lparr> scannedFiles := 1, skippedLargeFiles := 1 \<rparr>, 0))
   \<and> fs_stat demo_env ''/g/req/audio.md'' = Some \<lparr>st_kind = SFile, st_size = 53\<rparr>
   \<and> readFileFromRoot demo_env demo_api_small ''requirements'' ''audio.md'' (Some 10)
       = Inr \<lparr> rd_rootId = ''requirements'', rd_absPath = ''/g/req/audio.md'',
               rd_relPath = ''audio.md'', rd_truncated = True, rd_text = ''Need UI_Dr'' \<rparr>"
proof -
  have "case read_root demo_env demo_api_small ''requirements'' of
          None \<Rightarrow> False
        | Some (c, r) \<Rightarrow>
            cfg_maxFileBytes c = 10 \<and> read_absPath r ''audio.md'' = ''/g/req/audio.md''
            \<and> r_id r = ''requirements''"
    by code_simp
  then obtain cfg rt where rr: "read_root demo_env demo_api_small ''requirements'' = Some (cfg, rt)"
    and mb: "cfg_maxFileBytes cfg = 10"
    and ab: "read_absPath rt ''audio.md'' = ''/g/req/audio.md''"
    and r1: "r_id rt = ''requirements''"
    by (auto split: option.splits)
  have st: "fs_stat demo_env ''/g/req/audio.md'' = Some \<lparr>st_kind = SFile, st_size = 53\<rparr>"
    by code_simp
  have rd: "fs_readFile demo_env ''/g/req/audio.md'' = map_of demo_files ''/g/req/audio.md''"
    by code_simp
  define buf where "buf = the (map_of demo_files ''/g/req/audio.md'')"
  have buf: "map_of demo_files ''/g/req/audio.md'' = Some buf"
    unfolding buf_def by code_simp
  have tk: "utf8 demo_env (take 10 buf) = ''Need UI_Dr''"
    unfolding buf_def by code_simp
  have ns: "\<not> spec_read_fails demo_env demo_api_small ''requirements'' ''audio.md''" by code_simp
  have na: "\<not> read_also_refused demo_env demo_api_small ''requirements'' ''audio.md''" by code_simp
  have st': "fs_stat demo_env (read_absPath rt ''audio.md'') = Some \<lparr>st_kind = SFile, st_size = 53\<rparr>"
    unfolding ab by (rule st)
  have rd': "fs_readFile demo_env (read_absPath rt ''audio.md'') = Some buf"
    unfolding ab using rd buf by simp
  have big: "cfg_maxFileBytes cfg < real (st_size \<lparr>st_kind = SFile, st_size = 53\<rparr>)"
    by (simp add: mb)
  note t = large_file_skipped_by_search_truncated_by_read [OF rr st' _ big rd', where res = empty_result and maxHits = 50
             and m = "Substring False ''ui_draw''" and rt' = rt and li = 0, simplified]
  have e0: "real (length (hits empty_result)) < 50" by (simp add: empty_result_def)
  from t e0 ns na have
    1: "search_file demo_env cfg (Substring False ''ui_draw'') 50 rt (read_absPath rt ''audio.md'')
          (empty_result, 0)
          = Continue (empty_result\<lparr> scannedFiles := scannedFiles empty_result + 1,
                                skippedLargeFiles := skippedLargeFiles empty_result + 1 \<rparr>, 0)"
    and 2: "readFileFromRoot demo_env demo_api_small ''requirements'' ''audio.md''
              (Some (cfg_maxFileBytes cfg))
       = Inr \<lparr> rd_rootId = r_id rt, rd_absPath = read_absPath rt ''audio.md'',
               rd_relPath = str_trim ''audio.md'', rd_truncated = True,
               rd_text = utf8 demo_env (take (nat \<lfloor>cfg_maxFileBytes cfg\<rfloor>) buf) \<rparr>"
    by simp_all
  have r2: "str_trim ''audio.md'' = ''audio.md''" by code_simp
  have A: "search_file demo_env cfg (Substring False ''ui_draw'') 50 rt ''/g/req/audio.md''
             (empty_result, 0)
           = Continue (empty_result\<lparr> scannedFiles := 1, skippedLargeFiles := 1 \<rparr>, 0)"
    using 1 unfolding ab by (simp add: empty_result_def)
  have B: "readFileFromRoot demo_env demo_api_small ''requirements'' ''audio.md'' (Some 10)
       = Inr \<lparr> rd_rootId = ''requirements'', rd_absPath = ''/g/req/audio.md'',
               rd_relPath = ''audio.md'', rd_truncated = True, rd_text = ''Need UI_Dr'' \<rparr>"
    using 2 unfolding ab mb r1 r2 by (simp add: tk)
  from rr mb A st B show ?thesis by blast
qed

text \<open>
  The claim as worded fails for an oversized regular file whose name has two dots in a row:
  the search skips and counts it, the direct read refuses it.
\<close>

theorem large_dotdot_file_counterexample:
  "searchAcrossRoots demo_env demo_api_small 1
     \<lparr> sp_query = ''UI_Draw'', sp_rootIds = Some [''requirements''], sp_regex = None,
       sp_caseSensitive = None, sp_maxHits = None \<rparr>
     = Some (Inr \<lparr> hits = [], scannedFiles = 2, skippedLargeFiles = 2 \<rparr>)
   \<and> fs_stat demo_env ''/g/req/notes..md'' = Some \<lparr> st_kind = SFile, st_size = 13 \<rparr>
   \<and> readFileFromRoot demo_env demo_api_small ''requirements'' ''notes..md'' (Some 10)
       = Inl UnsafeRelPath"
  by code_simp

section \<open>Line matching\<close>

text \<open>
  In substring mode the line loop does what claim C5 says: below the hit cap it appends one
  hit for each matching line, in line order, numbered from 1, and the test of a line does
  not depend on the lines before it.
\<close>

lemma scan_lines_substring:
  fixes res :: SearchResult
  assumes "real (length (hits res)
            + length (filter (\<lambda>l. str_includes (if cs then l else toLowerCase l) q) ls)) < cap"
  shows "scan_lines e (Substring cs q) cap rt f ls i (res, li)
           = Continue
               (res\<lparr> hits := hits res
                          @ map (\<lambda>j. make_hit e rt f (i + j) (ls ! j))
                              (filter (\<lambda>j. str_includes (if cs then ls ! j else toLowerCase (ls ! j)) q)
                                 [0..<length ls]) \<rparr>, li)"
  using assms
proof (induction ls arbitrary: i res)
  case Nil
  then show ?case by simp
next
  case (Cons l ls)
  let ?P = "\<lambda>l. str_includes (if cs then l else toLowerCase l) q"
  have upt: "[0..<length (l # ls)] = 0 # map Suc [0..<length ls]"
    by (simp add: upt_conv_Cons map_Suc_upt del: upt_Suc)
  have flt: "filter (\<lambda>j. ?P ((l # ls) ! j)) [0..<length (l # ls)]
           = (if ?P l then [0] else []) @ map Suc (filter (\<lambda>j. ?P (ls ! j)) [0..<length ls])"
    unfolding upt by (simp add: filter_map o_def)
  show ?case
  proof (cases "?P l")
    case False
    then have "real (length (hits res) + length (filter ?P ls)) < cap" using Cons.prems by simp
    from Cons.IH [OF this, of "i + 1"] False show ?thesis
      unfolding flt by (simp add: o_def)
  next
    case True
    let ?res = "res\<lparr>hits := hits res @ [make_hit e rt f i l]\<rparr>"
    from True Cons.prems have lt: "real (length (hits ?res) + length (filter ?P ls)) < cap" by simp
    then have nc: "\<not> cap \<le> real (length (hits ?res))" by simp
    from Cons.IH [OF lt, of "i + 1"] True nc show ?thesis
      unfolding flt by (simp add: o_def Let_def)
  qed
qed

text \<open>
  Claim C5 fails in regex mode.  The matcher is one \<open>RegExp\<close> object with the \<open>g\<close> flag,
  and \<open>test\<close> starts at the \<open>lastIndex\<close> the previous successful test left.  In the
  example the second line of \<open>audio.md\<close> matches the pattern when tested from index 0, but
  the search tests it from index 12, where the match on the first line ended, and reports
  no hit for it.
\<close>

theorem regex_search_misses_matching_line:
  "searchAcrossRoots demo_env demo_api 1
     \<lparr> sp_query = ''UI_Draw'', sp_rootIds = Some [''requirements''], sp_regex = Some True,
       sp_caseSensitive = Some True, sp_maxHits = None \<rparr>
     = Some (Inr \<lparr> hits = [\<lparr> h_rootId = ''requirements'', h_file = ''audio.md'', h_line = 1,
                              h_text = ''Need UI_Draw in bank UI.'' \<rparr>,
                            \<lparr> h_rootId = ''requirements'', h_file = ''notes..md'', h_line = 1,
                              h_text = ''UI_Draw notes'' \<rparr>],
                    scannedFiles = 2, skippedLargeFiles = 0 \<rparr>)
   \<and> regexp_test (literal_regexp ''UI_Draw'' False) 0 ''UI_Draw again'' = (True, 7)
   \<and> regexp_test (literal_regexp ''UI_Draw'' False) 12 ''UI_Draw again'' = (False, 0)
   \<and> split_lines (the (map_of demo_files ''/g/req/audio.md''))
       = [''Need UI_Draw in bank UI.'', ''UI_Draw again'', ''no match here'']"
  by code_simp

section \<open>Path segments\<close>

lemma split_sep_acc_append:
  "split_sep_acc cur (a @ CHR ''/'' # b) = split_sep_acc cur a @ split_sep_acc [] b"
  by (induction a arbitrary: cur) simp_all

lemma split_sep_acc_no_sep: "CHR ''/'' \<notin> set n \<Longrightarrow> split_sep_acc cur n = [cur @ n]"
  by (induction n arbitrary: cur) auto

lemma split_sep_append: "split_sep (a @ CHR ''/'' # b) = split_sep a @ split_sep b"
  by (simp add: split_sep_def split_sep_acc_append)

lemma split_sep_no_sep: "CHR ''/'' \<notin> set n \<Longrightarrow> split_sep n = [n]"
  by (simp add: split_sep_def split_sep_acc_no_sep)

lemma split_sep_acc_segments_no_sep:
  "CHR ''/'' \<notin> set cur \<Longrightarrow> s \<in> set (split_sep_acc cur p) \<Longrightarrow> CHR ''/'' \<notin> set s"
proof (induction p arbitrary: cur)
  case Nil
  then show ?case by simp
next
  case (Cons c cs)
  show ?case
  proof (cases "c = CHR ''/''")
    case True
    with Cons.prems have "s = cur \<or> s \<in> set (split_sep_acc [] cs)" by simp
    then show ?thesis using Cons.prems(1) Cons.IH [of "[]"] by auto
  next
    case False
    with Cons.prems have "s \<in> set (split_sep_acc (cur @ [c]) cs)" by simp
    then show ?thesis using Cons.IH [of "cur @ [c]"] Cons.prems(1) False by auto
  qed
qed

lemma split_sep_segments_no_sep: "s \<in> set (split_sep p) \<Longrightarrow> CHR ''/'' \<notin> set s"
  using split_sep_acc_segments_no_sep [of "[]" s p] by (simp add: split_sep_def)

lemma norm_step_valid: "valid_name n \<Longrightarrow> norm_step allow res n = res @ [n]"
  by (simp add: norm_step_def valid_name_def)

lemma foldl_norm_step_valid:
  "\<forall>s \<in> set xs. valid_name s \<Longrightarrow> foldl (norm_step allow) acc xs = acc @ xs"
  by (induction xs arbitrary: acc) (simp_all add: norm_step_valid)

lemma norm_step_preserves_valid:
  assumes "\<forall>s \<in> set res. valid_name s" "CHR ''/'' \<notin> set seg"
  shows "\<forall>s \<in> set (norm_step False res seg). valid_name s"
proof -
  have bl: "\<forall>s \<in> set (butlast res). valid_name s"
    using assms(1) by (auto dest: in_set_butlastD)
  show ?thesis
    using assms bl by (auto simp: norm_step_def valid_name_def)
qed

lemma foldl_norm_step_preserves_valid:
  "\<forall>s \<in> set acc. valid_name s \<Longrightarrow> \<forall>s \<in> set xs. CHR ''/'' \<notin> set s \<Longrightarrow>
   \<forall>s \<in> set (foldl (norm_step False) acc xs). valid_name s"
proof (induction xs arbitrary: acc)
  case Nil
  then show ?case by simp
next
  case (Cons x xs)
  have "\<forall>s \<in> set (norm_step False acc x). valid_name s"
    by (rule norm_step_preserves_valid) (use Cons.prems in auto)
  then show ?case using Cons by simp
qed

lemma norm_segs_valid: "\<forall>s \<in> set (norm_segs False p). valid_name s"
  unfolding norm_segs_def
  by (rule foldl_norm_step_preserves_valid) (auto dest: split_sep_segments_no_sep)

lemma norm_segs_child:
  "valid_name n \<Longrightarrow> norm_segs allow (a @ CHR ''/'' # n) = norm_segs allow a @ [n]"
  by (simp add: norm_segs_def split_sep_append split_sep_no_sep valid_name_def norm_step_def)

lemma split_sep_Nil: "split_sep [] = [[]]"
  by (simp add: split_sep_def)

lemma norm_segs_trailing: "norm_segs allow (a @ ''/'') = norm_segs allow a"
  by (simp add: norm_segs_def split_sep_append split_sep_Nil norm_step_def)

lemma join_sep_Cons: "join_sep (s # ss) = (if ss = [] then s else s @ CHR ''/'' # join_sep ss)"
  by (cases ss) simp_all

lemma split_sep_join_sep:
  "xs \<noteq> [] \<Longrightarrow> \<forall>s \<in> set xs. CHR ''/'' \<notin> set s \<Longrightarrow> split_sep (join_sep xs) = xs"
proof (induction xs)
  case Nil
  then show ?case by simp
next
  case (Cons x xs)
  show ?case
  proof (cases xs)
    case Nil
    then show ?thesis using Cons.prems by (simp add: split_sep_no_sep)
  next
    case (Cons y ys)
    then have "split_sep (join_sep xs) = xs" using Cons.IH Cons.prems by simp
    then show ?thesis using Cons Cons.prems
      by (simp add: split_sep_append split_sep_no_sep)
  qed
qed

lemma norm_segs_canon:
  assumes "\<forall>s \<in> set xs. valid_name s"
  shows "norm_segs allow (CHR ''/'' # join_sep xs) = xs"
proof (cases xs)
  case Nil
  then show ?thesis by (simp add: norm_segs_def split_sep_def norm_step_def)
next
  case (Cons y ys)
  have ns: "\<forall>s \<in> set xs. CHR ''/'' \<notin> set s" using assms by (simp add: valid_name_def)
  have "split_sep (CHR ''/'' # join_sep xs) = [] # xs"
    using split_sep_append [of "[]" "join_sep xs"] split_sep_join_sep [OF _ ns] Cons
    by (simp add: split_sep_def)
  then show ?thesis
    using foldl_norm_step_valid [OF assms, of allow "[]"]
    by (simp add: norm_segs_def norm_step_def)
qed

lemma norm_segs_of_canon: "norm_segs False (canon p) = norm_segs False p"
  unfolding canon_def by (rule norm_segs_canon) (rule norm_segs_valid)

lemma path_resolve_abs:
  assumes "isAbsolute p"
  shows "path_resolve wd [p] = canon p"
proof -
  from assms have "p \<noteq> []" by (auto simp: isAbsolute_def)
  with assms have "resolve_go (rev [p] @ [wd]) [] = (p @ ''/'', True)" by simp
  then have "path_resolve wd [p] = CHR ''/'' # join_sep (norm_segs False (p @ ''/''))"
    by (simp add: path_resolve_def normalizeString_def)
  then show ?thesis by (simp only: norm_segs_trailing canon_def)
qed

lemma canon_eq_iff: "canon p = canon q \<longleftrightarrow> norm_segs False p = norm_segs False q"
  by (metis norm_segs_of_canon canon_def)

lemma common_prefix_len_le: "common_prefix_len xs ys \<le> length xs"
  by (induction xs ys rule: common_prefix_len.induct) auto

lemma common_prefix_len_prefix: "common_prefix_len xs ys = length xs \<longleftrightarrow> prefix xs ys"
  by (induction xs ys rule: common_prefix_len.induct) auto

lemma drop_common_prefix: "prefix xs ys \<Longrightarrow> xs @ drop (length xs) ys = ys"
  by (auto simp: prefix_def)

lemma path_relative_abs:
  assumes "isAbsolute from" "isAbsolute to"
  shows "path_relative wd from to =
           (if norm_segs False from = norm_segs False to then []
            else join_sep (replicate (length (norm_segs False from)
                                        - common_prefix_len (norm_segs False from) (norm_segs False to)) ''..''
                           @ drop (common_prefix_len (norm_segs False from) (norm_segs False to))
                               (norm_segs False to)))"
proof (cases "from = to")
  case True
  then show ?thesis by (simp add: path_relative_def)
next
  case False
  then show ?thesis
    by (simp add: path_relative_def path_resolve_abs [OF assms(1)] path_resolve_abs [OF assms(2)]
          canon_eq_iff norm_segs_of_canon Let_def)
qed

lemma join_sep_valid_not_up:
  assumes "\<forall>s \<in> set xs. valid_name s"
  shows "join_sep xs \<noteq> ''..'' \<and> \<not> startsWith (join_sep xs) ''../'' \<and> \<not> isAbsolute (join_sep xs)"
proof (cases xs)
  case Nil
  then show ?thesis by (simp add: startsWith_def isAbsolute_def)
next
  case (Cons s ss)
  with assms have v: "s \<noteq> []" "CHR ''/'' \<notin> set s" "s \<noteq> ''..''" by (simp_all add: valid_name_def)
  show ?thesis
  proof (cases ss)
    case Nil
    have "\<not> prefix ''../'' s"
    proof
      assume "prefix ''../'' s"
      then obtain t where "s = ''../'' @ t" by (auto simp: prefix_def)
      then show False using v(2) by simp
    qed
    moreover have "\<not> isAbsolute s" using v by (cases s) (auto simp: isAbsolute_def)
    ultimately show ?thesis using Cons Nil v by (simp add: startsWith_def)
  next
    case (Cons y ys)
    let ?r = "s @ CHR ''/'' # join_sep ss"
    have j: "join_sep xs = ?r" using \<open>xs = s # ss\<close> Cons by simp
    have 1: "?r \<noteq> ''..''"
    proof
      assume "?r = ''..''"
      then have "CHR ''/'' \<in> set ''..''" by (metis in_set_conv_decomp)
      then show False by simp
    qed
    have 2: "\<not> prefix ''../'' ?r"
    proof
      assume "prefix ''../'' ?r"
      then obtain t where t: "?r = ''../'' @ t" by (auto simp: prefix_def)
      show False
      proof (cases s)
        case Nil
        then show ?thesis using v by simp
      next
        case c1: (Cons a s1)
        with t have a: "a = CHR ''.''" by simp
        show ?thesis
        proof (cases s1)
          case Nil
          with t c1 show ?thesis by simp
        next
          case c2: (Cons b s2)
          with t c1 have b: "b = CHR ''.''" by simp
          show ?thesis
          proof (cases s2)
            case Nil
            with c1 c2 a b v(3) show ?thesis by simp
          next
            case (Cons c s3)
            with t c1 c2 have "c = CHR ''/''" by simp
            with Cons c1 c2 v(2) show ?thesis by simp
          qed
        qed
      qed
    qed
    have 3: "\<not> isAbsolute ?r" using v by (cases s) (auto simp: isAbsolute_def)
    from 1 2 3 show ?thesis unfolding j by (simp add: startsWith_def)
  qed
qed

lemma join_sep_up:
  "join_sep (''..'' # xs) = ''..'' \<or> startsWith (join_sep (''..'' # xs)) ''../''"
  by (cases xs) (simp_all add: startsWith_def)

lemma join_sep_up_nonempty: "join_sep (''..'' # xs) \<noteq> []"
  by (cases xs) simp_all

lemma isWithinRoot_prefix:
  assumes "isAbsolute from" "isAbsolute to"
  shows "isWithinRoot e from to \<longleftrightarrow> prefix (norm_segs False from) (norm_segs False to)"
proof -
  let ?A = "norm_segs False from" and ?B = "norm_segs False to"
  let ?k = "common_prefix_len ?A ?B"
  note rel = path_relative_abs [OF assms, of "cwd e"]
  show ?thesis
  proof (cases "?A = ?B")
    case True
    then show ?thesis by (simp add: isWithinRoot_def rel)
  next
    case ne: False
    show ?thesis
    proof (cases "prefix ?A ?B")
      case True
      then have k: "?k = length ?A" by (simp add: common_prefix_len_prefix)
      have "\<forall>s \<in> set (drop ?k ?B). valid_name s"
        using norm_segs_valid [of to] by (auto dest: in_set_dropD)
      from join_sep_valid_not_up [OF this] show ?thesis
        using True ne by (simp add: isWithinRoot_def rel k Let_def)
    next
      case False
      then have "?k \<noteq> length ?A" by (simp add: common_prefix_len_prefix)
      with common_prefix_len_le [of ?A ?B] have "?k < length ?A" by simp
      then obtain n where n: "length ?A - ?k = Suc n" by (cases "length ?A - ?k") auto
      have "isWithinRoot e from to = False"
        using join_sep_up [of "replicate n ''..'' @ drop ?k ?B"]
              join_sep_up_nonempty [of "replicate n ''..'' @ drop ?k ?B"] ne
        by (auto simp: isWithinRoot_def rel n Let_def)
      with False show ?thesis by simp
    qed
  qed
qed

lemma path_join_child:
  assumes "isAbsolute rd" "valid_name n"
  shows "path_join [rd, n] = CHR ''/'' # join_sep (norm_segs False rd @ [n])"
proof -
  from assms have ne: "rd \<noteq> []" "n \<noteq> []" by (auto simp: isAbsolute_def valid_name_def)
  let ?j = "rd @ CHR ''/'' # n"
  have j: "join_sep (filter (\<lambda>a. a \<noteq> []) [rd, n]) = ?j" using ne by simp
  have abs: "isAbsolute ?j" using assms(1) by (cases rd) (auto simp: isAbsolute_def)
  have "last n \<in> set n" using ne by simp
  moreover have "CHR ''/'' \<notin> set n" using assms(2) by (simp add: valid_name_def)
  ultimately have "last n \<noteq> CHR ''/''" by metis
  then have last: "last ?j \<noteq> CHR ''/''" using ne by simp
  have segs: "norm_segs False ?j = norm_segs False rd @ [n]"
    by (rule norm_segs_child [OF assms(2)])
  have q: "join_sep (norm_segs False rd @ [n]) \<noteq> []"
    using ne by (cases "norm_segs False rd") (simp_all add: join_sep_Cons)
  show ?thesis
    unfolding path_join_def j Let_def
    using abs last q by (simp add: path_normalize_def normalizeString_def segs Let_def)
qed

lemma path_join_child_abs: "isAbsolute rd \<Longrightarrow> valid_name n \<Longrightarrow> isAbsolute (path_join [rd, n])"
  by (simp add: path_join_child isAbsolute_def)

lemma path_join_child_segs:
  assumes "isAbsolute rd" "valid_name n"
  shows "norm_segs False (path_join [rd, n]) = norm_segs False rd @ [n]"
  unfolding path_join_child [OF assms]
  by (rule norm_segs_canon) (use norm_segs_valid [of rd] assms(2) in auto)

lemma within_child:
  assumes "isAbsolute R" "isAbsolute rd" "valid_name n" "isWithinRoot e R rd"
  shows "isWithinRoot e R (path_join [rd, n])"
  using assms
  by (simp add: isWithinRoot_prefix path_join_child_abs path_join_child_segs)

lemma within_self: "isWithinRoot e R R"
  by (simp add: isWithinRoot_def path_relative_def)

section \<open>Containment in the real root\<close>

lemma entry_action_symlink_nofollow:
  "d_kind ent = DSymbolicLink \<Longrightarrow> \<not> w_followSymlinks wp \<Longrightarrow> entry_action e wp rr dir ent = Skip"
  by (simp add: entry_action_def Let_def)

lemma entry_action_symlink_followed:
  assumes "d_kind ent = DSymbolicLink" "entry_action e wp rr dir ent \<noteq> Skip"
  shows "w_followSymlinks wp
       \<and> (\<exists>realp. fs_realpath e (path_join [dir, d_name ent]) = Some realp \<and> isWithinRoot e rr realp)"
  using assms by (auto simp: entry_action_def Let_def split: if_splits option.splits)

lemma entry_action_target:
  "entry_action e wp rr dir ent = Push p \<or> entry_action e wp rr dir ent = Yield p \<Longrightarrow>
   p = path_join [dir, d_name ent]"
  by (auto simp: entry_action_def Let_def split: if_splits option.splits)

lemma entry_action_plain:
  assumes "d_kind ent \<noteq> DSymbolicLink"
    "entry_action e wp rr dir ent = Push p \<or> entry_action e wp rr dir ent = Yield p"
  shows "p = path_join [dir, d_name ent]"
  using assms(2) by (rule entry_action_target)

lemma entry_inv:
  assumes ok: "fs_ok e"
    and d: "dir_inv e (w_followSymlinks wp) rootDir rr dir"
    and rd: "fs_readdir e dir = Some ents" and ent: "ent \<in> set ents"
  shows "case entry_action e wp rr dir ent of
           Skip \<Rightarrow> True
         | Push p \<Rightarrow> dir_inv e (w_followSymlinks wp) rootDir rr p
         | Yield p \<Rightarrow> file_inv e (w_followSymlinks wp) rootDir rr p"
proof -
  let ?full = "path_join [dir, d_name ent]"
  from d rd obtain rdir where abs: "isAbsolute rr" and rdir: "fs_realpath e dir = Some rdir"
    and win: "isWithinRoot e rr rdir"
    by (auto simp: dir_inv_def)
  from ok rd ent have vn: "valid_name (d_name ent)" by (auto simp: fs_ok_def)
  from ok rdir have ardir: "isAbsolute rdir" by (auto simp: fs_ok_def)
  have real: "\<exists>rp. fs_realpath e ?full = Some rp \<and> isWithinRoot e rr rp"
    if "entry_action e wp rr dir ent \<noteq> Skip"
  proof (cases "d_kind ent = DSymbolicLink")
    case True
    from entry_action_symlink_followed [OF True that] show ?thesis by blast
  next
    case False
    with ok rd ent rdir have "fs_realpath e ?full = Some (path_join [rdir, d_name ent])"
      unfolding fs_ok_def by blast
    moreover have "isWithinRoot e rr (path_join [rdir, d_name ent])"
      by (rule within_child [OF abs ardir vn win])
    ultimately show ?thesis by blast
  qed
  have plain: "plain_reach e rootDir ?full"
    if "entry_action e wp rr dir ent \<noteq> Skip" "\<not> w_followSymlinks wp"
  proof -
    have ns: "d_kind ent \<noteq> DSymbolicLink"
      using that entry_action_symlink_nofollow [of ent wp e rr dir] by auto
    from d that(2) have "plain_reach e rootDir dir" by (simp add: dir_inv_def)
    then show ?thesis using rd ent ns by (rule plain_reach.child)
  qed
  show ?thesis
  proof (cases "entry_action e wp rr dir ent")
    case Skip
    then show ?thesis by simp
  next
    case (Push p)
    then have p: "p = ?full" using entry_action_target [of e wp rr dir ent p] by simp
    from Push have ns: "entry_action e wp rr dir ent \<noteq> Skip" by simp
    show ?thesis
      using real [OF ns] plain [OF ns] abs Push by (auto simp: dir_inv_def p)
  next
    case (Yield p)
    then have p: "p = ?full" using entry_action_target [of e wp rr dir ent p] by simp
    from Yield have ns: "entry_action e wp rr dir ent \<noteq> Skip" by simp
    show ?thesis
      using real [OF ns] plain [OF ns] Yield by (auto simp: file_inv_def p)
  qed
qed

lemma root_dir_inv:
  assumes ok: "fs_ok e"
  shows "dir_inv e follow rootDir (case fs_realpath e rootDir of None \<Rightarrow> rootDir | Some r \<Rightarrow> r) rootDir"
proof (cases "fs_realpath e rootDir")
  case None
  with ok have "fs_readdir e rootDir = None" by (cases "fs_readdir e rootDir") (auto simp: fs_ok_def)
  then show ?thesis by (simp add: dir_inv_def plain_reach.root)
next
  case (Some r)
  with ok have "isAbsolute r" by (auto simp: fs_ok_def)
  then show ?thesis using Some by (simp add: dir_inv_def plain_reach.root within_self)
qed

lemma walkFiles_inv:
  assumes ok: "fs_ok e"
    and body: "\<And>p s. file_inv e (w_followSymlinks wp) (w_rootDir wp)
                    (case fs_realpath e (w_rootDir wp) of None \<Rightarrow> w_rootDir wp | Some r \<Rightarrow> r) p
                  \<Longrightarrow> I s \<Longrightarrow> (case body p s of Return r \<Rightarrow> I r | Continue s' \<Rightarrow> I s')"
    and s: "I s"
  shows "case walkFiles e wp body fuel s of
           None \<Rightarrow> True
         | Some (Return r) \<Rightarrow> I r
         | Some (Continue s') \<Rightarrow> I s'"
  unfolding walkFiles_def Let_def
proof (rule walk_loop_inv [where
        Py = "file_inv e (w_followSymlinks wp) (w_rootDir wp)
                (case fs_realpath e (w_rootDir wp) of None \<Rightarrow> w_rootDir wp | Some r \<Rightarrow> r)"
        and Pd = "dir_inv e (w_followSymlinks wp) (w_rootDir wp)
                (case fs_realpath e (w_rootDir wp) of None \<Rightarrow> w_rootDir wp | Some r \<Rightarrow> r)"
        and I = I and R = I])
  show "\<And>p s. file_inv e (w_followSymlinks wp) (w_rootDir wp)
                (case fs_realpath e (w_rootDir wp) of None \<Rightarrow> w_rootDir wp | Some r \<Rightarrow> r) p
          \<Longrightarrow> I s \<Longrightarrow> (case body p s of Return r \<Rightarrow> I r | Continue s' \<Rightarrow> I s')"
    by (rule body)
next
  fix dir ents ent
  assume "dir_inv e (w_followSymlinks wp) (w_rootDir wp)
            (case fs_realpath e (w_rootDir wp) of None \<Rightarrow> w_rootDir wp | Some r \<Rightarrow> r) dir"
    "fs_readdir e dir = Some ents" "ent \<in> set ents"
  then show "case entry_action e wp
                 (case fs_realpath e (w_rootDir wp) of None \<Rightarrow> w_rootDir wp | Some r \<Rightarrow> r) dir ent of
               Skip \<Rightarrow> True
             | Push d \<Rightarrow> dir_inv e (w_followSymlinks wp) (w_rootDir wp)
                          (case fs_realpath e (w_rootDir wp) of None \<Rightarrow> w_rootDir wp | Some r \<Rightarrow> r) d
             | Yield p \<Rightarrow> file_inv e (w_followSymlinks wp) (w_rootDir wp)
                          (case fs_realpath e (w_rootDir wp) of None \<Rightarrow> w_rootDir wp | Some r \<Rightarrow> r) p"
    by (rule entry_inv [OF ok])
next
  show "\<forall>d \<in> set [w_rootDir wp].
          dir_inv e (w_followSymlinks wp) (w_rootDir wp)
            (case fs_realpath e (w_rootDir wp) of None \<Rightarrow> w_rootDir wp | Some r \<Rightarrow> r) d"
    using root_dir_inv [OF ok] by simp
next
  show "I s" by (rule s)
qed

lemma scan_lines_hits_inv:
  assumes "\<forall>h \<in> set (hits (fst st)). G h" "\<And>i line. G (make_hit e rt p i line)"
  shows "case scan_lines e m cap rt p ls i st of
           Return st' \<Rightarrow> \<forall>h \<in> set (hits (fst st')). G h
         | Continue st' \<Rightarrow> \<forall>h \<in> set (hits (fst st')). G h"
  using assms(1)
proof (induction ls arbitrary: i st)
  case Nil
  then show ?case by simp
next
  case (Cons l ls)
  obtain ok li' where mt: "matcher_test m (snd st) l = (ok, li')" by (cases "matcher_test m (snd st) l")
  show ?case
  proof (cases ok)
    case False
    then show ?thesis using mt Cons.IH [of "(fst st, li')" "i + 1"] Cons.prems by simp
  next
    case True
    let ?res = "(fst st)\<lparr>hits := hits (fst st) @ [make_hit e rt p i l]\<rparr>"
    have g: "\<forall>h \<in> set (hits (fst (?res, li'))). G h" using Cons.prems assms(2) by auto
    show ?thesis
    proof (cases "real (length (hits ?res)) \<ge> cap")
      case t: True
      then show ?thesis using mt True g by (simp add: Let_def)
    next
      case False
      from Cons.IH [OF g, of "i + 1"] show ?thesis using mt True False by (simp add: Let_def)
    qed
  qed
qed

lemma search_file_hits_inv:
  assumes "\<forall>h \<in> set (hits (fst st)). G h" "\<And>i line. G (make_hit e rt p i line)"
  shows "case search_file e cfg m cap rt p st of
           Return st' \<Rightarrow> \<forall>h \<in> set (hits (fst st')). G h
         | Continue st' \<Rightarrow> \<forall>h \<in> set (hits (fst st')). G h"
proof (cases "real (length (hits (fst st))) \<ge> cap")
  case True
  then show ?thesis using assms(1) by (simp add: search_file_def)
next
  case nc: False
  show ?thesis
  proof (cases "readTextFileLimited e p (cfg_maxFileBytes cfg)")
    case None
    then show ?thesis using assms(1) nc by (simp add: search_file_def Let_def)
  next
    case (Some content)
    have "\<forall>h \<in> set (hits (fst ((fst st)\<lparr>scannedFiles := scannedFiles (fst st) + 1\<rparr>, snd st))). G h"
      using assms(1) by simp
    from scan_lines_hits_inv [where G = G, OF this assms(2)] show ?thesis using Some nc
      by (simp add: search_file_def Let_def)
  qed
qed

lemma search_roots_hits_inv:
  assumes ok: "fs_ok e"
    and sub: "set rs \<subseteq> set sel"
    and st: "\<forall>h \<in> set (hits (fst st)). hit_inv e cfg sel h"
    and res: "search_roots e cfg m cap fuel rs st = Some st'"
  shows "\<forall>h \<in> set (hits (fst st')). hit_inv e cfg sel h"
  using sub st res
proof (induction rs arbitrary: st)
  case Nil
  then show ?case by simp
next
  case (Cons rt rs)
  let ?I = "\<lambda>s :: SearchResult \<times> nat. \<forall>h \<in> set (hits (fst s)). hit_inv e cfg sel h"
  show ?case
  proof (cases "r_exists rt")
    case False
    then show ?thesis using Cons by simp
  next
    case True
    have rt: "rt \<in> set sel" using Cons.prems(1) by simp
    have w: "case walkFiles e (walk_params cfg rt) (search_file e cfg m cap rt) fuel st of
               None \<Rightarrow> True
             | Some (Return r) \<Rightarrow> ?I r
             | Some (Continue s') \<Rightarrow> ?I s'"
    proof (rule walkFiles_inv [OF ok, where I = ?I])
      fix p and s :: "SearchResult \<times> nat"
      assume fi: "file_inv e (w_followSymlinks (walk_params cfg rt)) (w_rootDir (walk_params cfg rt))
                    (case fs_realpath e (w_rootDir (walk_params cfg rt)) of
                       None \<Rightarrow> w_rootDir (walk_params cfg rt) | Some r \<Rightarrow> r) p"
        and i: "?I s"
      have wr: "w_rootDir (walk_params cfg rt) = r_path rt"
        and wf: "w_followSymlinks (walk_params cfg rt) = cfg_followSymlinks cfg"
        by (simp_all add: walk_params_def)
      from fi have "file_inv e (cfg_followSymlinks cfg) (r_path rt) (read_rootReal e rt) p"
        unfolding wr wf read_rootReal_def .
      then have "\<And>i line. hit_inv e cfg sel (make_hit e rt p i line)"
        using rt unfolding hit_inv_def by blast
      from search_file_hits_inv [where G = "hit_inv e cfg sel", OF i this]
      show "case search_file e cfg m cap rt p s of Return r \<Rightarrow> ?I r | Continue s' \<Rightarrow> ?I s'" .
    next
      show "?I st" by (rule Cons.prems(2))
    qed
    show ?thesis
    proof (cases "walkFiles e (walk_params cfg rt) (search_file e cfg m cap rt) fuel st")
      case None
      then show ?thesis using Cons.prems(3) True by simp
    next
      case (Some c)
      show ?thesis
      proof (cases c)
        case (Return r)
        then show ?thesis using w Some Cons.prems(3) True by simp
      next
        case (Continue s')
        with w Some have i': "?I s'" by simp
        have sub': "set rs \<subseteq> set sel" using Cons.prems(1) by simp
        have sr': "search_roots e cfg m cap fuel rs s' = Some st'"
          using Cons.prems(3) True Some Continue by simp
        show ?thesis by (rule Cons.IH [OF sub' i' sr'])
      qed
    qed
  qed
qed

lemma walk_entry_skip: "entry_action e wp rr dir ent = Skip \<Longrightarrow> walk_entry e wp body rr dir ent st = Continue st"
  by (simp add: walk_entry_action)


lemma demo_readdir:
  "fs_readdir demo_env d = Some ents \<Longrightarrow> (d, ents) \<in> set demo_dirs"
  by (simp add: demo_env_def map_of_SomeD)

lemma demo_fs_ok: "fs_ok demo_env"
  unfolding fs_ok_def
proof (intro conjI allI impI)
  fix d ents ent
  assume a: "fs_readdir demo_env d = Some ents \<and> ent \<in> set ents"
  have "\<forall>(d, ents) \<in> set demo_dirs. \<forall>ent \<in> set ents. valid_name (d_name ent)"
    by code_simp
  with a demo_readdir [of d ents] show "valid_name (d_name ent)" by blast
next
  fix d rd ents ent
  assume a: "fs_readdir demo_env d = Some ents \<and> ent \<in> set ents \<and> d_kind ent \<noteq> DSymbolicLink
           \<and> fs_realpath demo_env d = Some rd"
  have "\<forall>(d, ents) \<in> set demo_dirs. \<forall>ent \<in> set ents.
          d_kind ent \<noteq> DSymbolicLink \<longrightarrow>
          fs_realpath demo_env d = Some d
          \<and> fs_realpath demo_env (path_join [d, d_name ent]) = Some (path_join [d, d_name ent])"
    by code_simp
  with a demo_readdir [of d ents] have
    "fs_realpath demo_env d = Some d
     \<and> fs_realpath demo_env (path_join [d, d_name ent]) = Some (path_join [d, d_name ent])"
    by blast
  with a show "fs_realpath demo_env (path_join [d, d_name ent]) = Some (path_join [rd, d_name ent])"
    by simp
next
  fix d ents
  assume a: "fs_readdir demo_env d = Some ents"
  have "\<forall>(d, ents) \<in> set demo_dirs. fs_realpath demo_env d \<noteq> None"
    by code_simp
  with demo_readdir [OF a] show "fs_realpath demo_env d \<noteq> None" by blast
next
  fix p r
  assume a: "fs_realpath demo_env p = Some r"
  then have "r \<in> set (map fst demo_dirs @ map fst demo_files)"
    by (simp add: demo_env_def split: if_splits)
  moreover have "\<forall>r \<in> set (map fst demo_dirs @ map fst demo_files). isAbsolute r"
    by code_simp
  ultimately show "isAbsolute r" by blast
qed

text \<open>
  Claim C1.  On a well-formed file system, every hit of a search was made from a file the
  walker yielded under one of the selected roots, and the real path of that file lies within
  the real path of that root; when links are not followed the file was reached from the root
  directory through entries none of which is a symbolic link.  For a single entry: when
  links are not followed, a symbolic link is passed over (nothing is pushed, nothing is
  yielded); when they are, a symbolic link is pushed or yielded only if its real path
  resolves and lies within the real path of the root.
\<close>

theorem hits_stay_within_real_root:
  fixes params :: SearchParams
  assumes ok: "fs_ok e"
    and r: "resolveRoots e a = Inr (cfg, roots)"
    and s: "searchAcrossRoots e a fuel params = Some (Inr res)"
    and h: "h \<in> set (hits res)"
  shows "(\<exists>rt \<in> set (select_roots (sp_rootIds params) roots). \<exists>filePath i line realp.
            h = make_hit e rt filePath i line
            \<and> fs_realpath e filePath = Some realp
            \<and> isWithinRoot e (read_rootReal e rt) realp
            \<and> (\<not> cfg_followSymlinks cfg \<longrightarrow> plain_reach e (r_path rt) filePath))
       \<and> (\<forall>(wp :: WalkParams) (body :: string \<Rightarrow> SearchResult \<times> nat \<Rightarrow> (SearchResult \<times> nat, SearchResult \<times> nat) ctl)
             rr dir (ent :: dirent) st.
             d_kind ent = DSymbolicLink \<and> \<not> w_followSymlinks wp \<longrightarrow>
             entry_action e wp rr dir ent = Skip
             \<and> walk_entry e wp body rr dir ent st = Continue st)
       \<and> (\<forall>(wp :: WalkParams) rr dir (ent :: dirent).
             d_kind ent = DSymbolicLink \<and> entry_action e wp rr dir ent \<noteq> Skip \<longrightarrow>
             w_followSymlinks wp
             \<and> (\<exists>realp. fs_realpath e (path_join [dir, d_name ent]) = Some realp
                        \<and> isWithinRoot e rr realp))"
proof (intro conjI allI impI)
  let ?sel = "select_roots (sp_rootIds params) roots"
  from s r obtain m st' where
    sr: "search_roots e cfg m (effective_maxHits (sp_maxHits params) cfg) fuel ?sel (empty_result, 0)
           = Some st'" and res: "res = fst st'"
    by (auto simp: searchAcrossRoots_def Let_def split: sum.splits)
  have "\<forall>h \<in> set (hits (fst st')). hit_inv e cfg ?sel h"
    by (rule search_roots_hits_inv [OF ok _ _ sr]) (simp_all add: empty_result_def)
  with h res have "hit_inv e cfg ?sel h" by simp
  then show "\<exists>rt \<in> set ?sel. \<exists>filePath i line realp.
            h = make_hit e rt filePath i line
            \<and> fs_realpath e filePath = Some realp
            \<and> isWithinRoot e (read_rootReal e rt) realp
            \<and> (\<not> cfg_followSymlinks cfg \<longrightarrow> plain_reach e (r_path rt) filePath)"
    unfolding hit_inv_def file_inv_def by blast
next
  fix wp :: WalkParams and body :: "string \<Rightarrow> SearchResult \<times> nat \<Rightarrow> (SearchResult \<times> nat, SearchResult \<times> nat) ctl"
    and rr dir st and ent :: dirent
  assume a: "d_kind ent = DSymbolicLink \<and> \<not> w_followSymlinks wp"
  then show sk: "entry_action e wp rr dir ent = Skip"
    by (simp add: entry_action_symlink_nofollow)
  then show "walk_entry e wp body rr dir ent st = Continue st" by (rule walk_entry_skip)
next
  fix wp :: WalkParams and rr dir and ent :: dirent
  assume a: "d_kind ent = DSymbolicLink \<and> entry_action e wp rr dir ent \<noteq> Skip"
  from entry_action_symlink_followed [OF conjunct1 [OF a] conjunct2 [OF a]]
  show "w_followSymlinks wp" and
    "\<exists>realp. fs_realpath e (path_join [dir, d_name ent]) = Some realp \<and> isWithinRoot e rr realp"
    by blast+
qed


theorem hits_stay_within_real_root_witness:
  "fs_ok demo_env
   \<and> (\<exists>res h rt filePath i line realp.
         searchAcrossRoots demo_env demo_api 1 (plain_search ''PostEvent'' None) = Some (Inr res)
         \<and> h \<in> set (hits res)
         \<and> h = make_hit demo_env rt filePath i line
         \<and> fs_realpath demo_env filePath = Some realp
         \<and> isWithinRoot demo_env (read_rootReal demo_env rt) realp
         \<and> plain_reach demo_env (r_path rt) filePath)"
proof -
  let ?h = "\<lparr> h_rootId = ''unity'', h_file = ''Audio.cs'', h_line = 1,
              h_text = ''PostEvent(UI_Draw, go);'' \<rparr>"
  let ?res = "\<lparr> hits = [?h], scannedFiles = 4, skippedLargeFiles = 0 \<rparr>"
  have s: "searchAcrossRoots demo_env demo_api 1 (plain_search ''PostEvent'' None) = Some (Inr ?res)"
    by code_simp
  have "case resolveRoots demo_env demo_api of Inl err \<Rightarrow> False
        | Inr (cfg, roots) \<Rightarrow> \<not> cfg_followSymlinks cfg"
    by code_simp
  then obtain cfg roots where r: "resolveRoots demo_env demo_api = Inr (cfg, roots)"
    and nf: "\<not> cfg_followSymlinks cfg"
    by (auto split: sum.splits)
  have h: "?h \<in> set (hits ?res)" by simp
  from hits_stay_within_real_root [OF demo_fs_ok r s h, THEN conjunct1] nf obtain rt filePath i line realp where
    "?h = make_hit demo_env rt filePath i line"
    "fs_realpath demo_env filePath = Some realp"
    "isWithinRoot demo_env (read_rootReal demo_env rt) realp"
    "plain_reach demo_env (r_path rt) filePath"
    by blast
  with s h demo_fs_ok show ?thesis by blast
qed

end
